theory Spec2Isabelle
  imports Main "HOL-Library.List_Lexorder" "HOL-Library.Sublist"
begin

section \<open>Strings\<close>

text \<open>
  A JavaScript string is a sequence of UTF-16 code units, and \<^verbatim>\<open>length\<close> and
  \<^verbatim>\<open>slice\<close> count code units. A string is modelled as the list of the numeric
  values of its code units, so that the non-ASCII literals of the script can be
  written down exactly.
\<close>

type_synonym jsstring = "nat list"

text \<open>\<^verbatim>\<open>String.prototype.slice(start, end)\<close>: a negative index counts from the end,
  every index is clamped to the string, and an empty range gives the empty string.\<close>

definition js_slice :: "jsstring \<Rightarrow> int \<Rightarrow> int \<Rightarrow> jsstring" where
  "js_slice s start fin =
     (let len = int (length s);
          from = (if start < 0 then max (len + start) 0 else min start len);
          to = (if fin < 0 then max (len + fin) 0 else min fin len)
      in take (nat (to - from)) (drop (nat from) s))"

text \<open>\<^verbatim>\<open>Array.prototype.join\<close>.\<close>

fun js_join :: "jsstring \<Rightarrow> jsstring list \<Rightarrow> jsstring" where
  "js_join sep [] = []"
| "js_join sep [x] = x"
| "js_join sep (x # y # ys) = x @ sep @ js_join sep (y # ys)"

text \<open>The code units that \<^verbatim>\<open>trim\<close> strips: WhiteSpace and LineTerminator of ECMAScript.\<close>

definition is_line_terminator :: "nat \<Rightarrow> bool" where
  "is_line_terminator c = (c = 10 \<or> c = 13 \<or> c = 8232 \<or> c = 8233)"

definition is_white_space :: "nat \<Rightarrow> bool" where
  "is_white_space c =
     (c = 9 \<or> c = 11 \<or> c = 12 \<or> c = 32 \<or> c = 160 \<or> c = 5760 \<or> (8192 \<le> c \<and> c \<le> 8202)
      \<or> c = 8239 \<or> c = 8287 \<or> c = 12288 \<or> c = 65279 \<or> is_line_terminator c)"

definition trim :: "jsstring \<Rightarrow> jsstring" where
  "trim s = rev (dropWhile is_white_space (rev (dropWhile is_white_space s)))"

section \<open>Diff chunker\<close>

text \<open>The literal \<^verbatim>\<open>diff --git\<close>.\<close>

definition diff_git :: jsstring where
  "diff_git = [100, 105, 102, 102, 32, 45, 45, 103, 105, 116]"

text \<open>
  \<^verbatim>\<open>patch.split(/^diff --git.*$/m)\<close>. With the \<^verbatim>\<open>m\<close> flag \<^verbatim>\<open>^\<close> holds at the start
  of the input and after a line terminator, the greedy \<^verbatim>\<open>.*\<close> takes every code unit
  up to the next line terminator, where \<^verbatim>\<open>$\<close> holds. So every line that starts with
  the literal is a match, it is removed whole (its line terminator stays with the
  next part), and the text between two matches is a part. The flag \<open>bol\<close> says that
  the position is at the beginning of a line, \<open>acc\<close> is the part read so far.
\<close>

function split_diff_git :: "bool \<Rightarrow> jsstring \<Rightarrow> jsstring \<Rightarrow> jsstring list" where
  "split_diff_git bol acc [] = [acc]"
| "split_diff_git bol acc (c # cs) =
     (if bol \<and> take (length diff_git) (c # cs) = diff_git
      then acc # split_diff_git False [] (dropWhile (\<lambda>x. \<not> is_line_terminator x) cs)
      else split_diff_git (is_line_terminator c) (acc @ [c]) cs)"
  by pat_completeness auto
termination
  by (relation "measure (\<lambda>(bol, acc, s). length s)")
     (auto simp: less_Suc_eq_le length_dropWhile_le)

text \<open>\<^verbatim>\<open>splitPatchByFile\<close>: the parts, trimmed, the empty ones dropped.\<close>

definition splitPatchByFile :: "jsstring \<Rightarrow> jsstring list" where
  "splitPatchByFile patch =
     (if patch = [] then []
      else filter (\<lambda>p. p \<noteq> []) (map trim (split_diff_git True [] patch)))"

text \<open>The separator \<^verbatim>\<open>\n\n\<close> that packs units into one chunk.\<close>

definition nn :: jsstring where
  "nn = [10, 10]"

text \<open>
  The slicing loop of \<^verbatim>\<open>chunkBySize\<close>:
  \<^verbatim>\<open>for (let i = 0; i < p.length; i += limit) out.push(p.slice(i, i + limit))\<close>.
  With a limit that is not positive the loop never ends on a non-empty unit; the
  value \<open>None\<close> stands for that.
\<close>

partial_function (option) slice_loop ::
  "jsstring \<Rightarrow> int \<Rightarrow> int \<Rightarrow> jsstring list \<Rightarrow> jsstring list option" where
  "slice_loop p limit i out =
     (if i < int (length p)
      then slice_loop p limit (i + limit) (out @ [js_slice p i (i + limit)])
      else Some out)"

text \<open>The \<^verbatim>\<open>for (const p of parts)\<close> loop, on the state \<open>(out, buf)\<close>.\<close>

fun chunk_loop ::
  "int \<Rightarrow> jsstring list \<Rightarrow> jsstring list \<Rightarrow> jsstring \<Rightarrow> (jsstring list \<times> jsstring) option" where
  "chunk_loop limit [] out buf = Some (out, buf)"
| "chunk_loop limit (p # ps) out buf =
     (let candidate = (if buf \<noteq> [] then buf @ nn @ p else p) in
      if int (length candidate) > limit then
        (let out1 = (if buf \<noteq> [] then out @ [buf] else out) in
         if int (length p) > limit then
           (case slice_loop p limit 0 out1 of
              None \<Rightarrow> None
            | Some out2 \<Rightarrow> chunk_loop limit ps out2 [])
         else chunk_loop limit ps out1 p)
      else chunk_loop limit ps out candidate)"

definition chunkBySize :: "jsstring list \<Rightarrow> int \<Rightarrow> jsstring list option" where
  "chunkBySize parts limit =
     (case chunk_loop limit parts [] [] of
        None \<Rightarrow> None
      | Some (out, buf) \<Rightarrow> Some (if buf \<noteq> [] then out @ [buf] else out))"

text \<open>The slices of a unit from position \<open>i\<close> on, for a positive limit.\<close>

function slices_from :: "jsstring \<Rightarrow> int \<Rightarrow> int \<Rightarrow> jsstring list" where
  "slices_from p limit i =
     (if 0 < limit \<and> 0 \<le> i \<and> i < int (length p)
      then take (nat limit) (drop (nat i) p) # slices_from p limit (i + limit)
      else [])"
  by pat_completeness auto
termination
  by (relation "measure (\<lambda>(p, limit, i). nat (int (length p) - i))") auto

declare slices_from.simps [simp del]






section \<open>Activity collector\<close>

record CommitMeta =
  sha :: jsstring
  title :: jsstring
  author :: jsstring
  url :: jsstring
  branches :: "jsstring list"

text \<open>
  A \<^verbatim>\<open>Map\<close> keeps its keys in insertion order: it is an association list, and
  \<^verbatim>\<open>set\<close> overwrites the value of a key that is there and appends a new key.
  A \<^verbatim>\<open>Set\<close> is the list of its elements in insertion order.
\<close>

fun map_set :: "'k \<Rightarrow> 'v \<Rightarrow> ('k \<times> 'v) list \<Rightarrow> ('k \<times> 'v) list" where
  "map_set k v [] = [(k, v)]"
| "map_set k v ((k', v') # m) = (if k = k' then (k, v) # m else (k', v') # map_set k v m)"

definition map_has :: "'k \<Rightarrow> ('k \<times> 'v) list \<Rightarrow> bool" where
  "map_has k m = (map_of m k \<noteq> None)"

definition set_add :: "'a \<Rightarrow> 'a list \<Rightarrow> 'a list" where
  "set_add x s = (if x \<in> set s then s else s @ [x])"

text \<open>\<^verbatim>\<open>Array.prototype.slice(start)\<close>, which the cap \<^verbatim>\<open>list.slice(-PER_BRANCH_LIMIT)\<close>
  uses: a negative start counts from the end, and \<^verbatim>\<open>-0\<close> is \<^verbatim>\<open>0\<close>.\<close>

definition js_array_slice :: "'a list \<Rightarrow> int \<Rightarrow> 'a list" where
  "js_array_slice xs start =
     (let len = int (length xs);
          k = (if start < 0 then max (len + start) 0 else min start len)
      in drop (nat k) xs)"

text \<open>
  What the version-control program answers: the remote branches, the ids of
  \<^verbatim>\<open>git log <branch>\<close> in the window, oldest first, the ids of \<^verbatim>\<open>git log --all\<close> in the
  window, oldest first, the title and the author of a commit, and its diff. The lists are
  the outputs already split into lines.
\<close>

record git =
  remoteBranches :: "jsstring list"
  branchLog :: "jsstring \<Rightarrow> jsstring list"
  allShasOrdered :: "jsstring list"
  titleOf :: "jsstring \<Rightarrow> jsstring"
  authorOf :: "jsstring \<Rightarrow> jsstring"
  getDiff :: "jsstring \<Rightarrow> jsstring"

text \<open>The ids kept for a branch: the last \<^verbatim>\<open>PER_BRANCH_LIMIT\<close> of its log.\<close>

definition retained :: "git \<Rightarrow> int \<Rightarrow> jsstring \<Rightarrow> jsstring list" where
  "retained g perBranchLimit rb = js_array_slice (branchLog g rb) (- perBranchLimit)"

text \<open>\<^verbatim>\<open>branchToCommits\<close>: the loop over \<^verbatim>\<open>remoteBranches\<close>.\<close>

fun branchToCommits ::
  "git \<Rightarrow> int \<Rightarrow> jsstring list \<Rightarrow> (jsstring \<times> jsstring list) list \<Rightarrow> (jsstring \<times> jsstring list) list" where
  "branchToCommits g lim [] m = m"
| "branchToCommits g lim (rb # rbs) m = branchToCommits g lim rbs (map_set rb (retained g lim rb) m)"

text \<open>\<^verbatim>\<open>shaToBranches\<close>: the inner loop over the ids of one branch, and the loop over the
  entries of \<^verbatim>\<open>branchToCommits\<close>.\<close>

fun add_shas ::
  "jsstring \<Rightarrow> jsstring list \<Rightarrow> (jsstring \<times> jsstring list) list \<Rightarrow> (jsstring \<times> jsstring list) list" where
  "add_shas rb [] m = m"
| "add_shas rb (s # ss) m =
     (let m1 = (if \<not> map_has s m then map_set s [] m else m)
      in add_shas rb ss
           (case map_of m1 s of
              Some bs \<Rightarrow> map_set s (set_add rb bs) m1
            | None \<Rightarrow> m1))"

fun shaToBranches ::
  "(jsstring \<times> jsstring list) list \<Rightarrow> (jsstring \<times> jsstring list) list \<Rightarrow> (jsstring \<times> jsstring list) list" where
  "shaToBranches [] m = m"
| "shaToBranches ((rb, shas) # es) m = shaToBranches es (add_shas rb shas m)"

text \<open>The attribution map of a run.\<close>

definition attribution :: "git \<Rightarrow> int \<Rightarrow> (jsstring \<times> jsstring list) list" where
  "attribution g lim = shaToBranches (branchToCommits g lim (remoteBranches g) []) []"

text \<open>\<^verbatim>\<open>commitShas\<close>: the filter over \<^verbatim>\<open>allShasOrdered\<close>, with the set \<^verbatim>\<open>seen\<close> as state.\<close>

fun filter_seen ::
  "(jsstring \<times> jsstring list) list \<Rightarrow> jsstring list \<Rightarrow> jsstring list \<Rightarrow> jsstring list" where
  "filter_seen m seen [] = []"
| "filter_seen m seen (s # ss) =
     (if s \<in> set seen then filter_seen m seen ss
      else if \<not> map_has s m then filter_seen m seen ss
      else s # filter_seen m (set_add s seen) ss)"

definition commitShas :: "git \<Rightarrow> int \<Rightarrow> jsstring list" where
  "commitShas g lim = filter_seen (attribution g lim) [] (allShasOrdered g)"

text \<open>The literals \<^verbatim>\<open>https://github.com\<close> and \<^verbatim>\<open>/commit/\<close>.\<close>

definition serverUrl :: jsstring where
  "serverUrl = [104, 116, 116, 112, 115, 58, 47, 47, 103, 105, 116, 104, 117, 98, 46, 99, 111, 109]"

definition commit_path :: jsstring where
  "commit_path = [47, 99, 111, 109, 109, 105, 116, 47]"

text \<open>\<^verbatim>\<open>commitMetas\<close>. The default \<^verbatim>\<open>sort()\<close> orders strings by their code units, which is
  the lexicographic order of the lists.\<close>

definition commitMeta :: "git \<Rightarrow> jsstring \<Rightarrow> (jsstring \<times> jsstring list) list \<Rightarrow> jsstring \<Rightarrow> CommitMeta" where
  "commitMeta g repo m s =
     \<lparr>sha = s, title = titleOf g s, author = authorOf g s,
      url = (if repo \<noteq> [] then serverUrl @ [47] @ repo @ commit_path @ s
             else serverUrl @ commit_path @ s),
      branches = sort (case map_of m s of Some bs \<Rightarrow> bs | None \<Rightarrow> [])\<rparr>"

definition commitMetas :: "git \<Rightarrow> int \<Rightarrow> jsstring \<Rightarrow> CommitMeta list" where
  "commitMetas g lim repo = map (commitMeta g repo (attribution g lim)) (commitShas g lim)"

text \<open>
  The walk of the specification, in its words: the ids of the union, in order, each kept
  the first time it is seen and only if it is in the attribution map.
\<close>

definition first_tracked :: "jsstring list \<Rightarrow> (jsstring \<Rightarrow> bool) \<Rightarrow> jsstring list" where
  "first_tracked ids tracked =
     map (\<lambda>i. ids ! i)
       (filter (\<lambda>i. ids ! i \<notin> set (take i ids) \<and> tracked (ids ! i)) [0..<length ids])"

text \<open>The branches that a map records for an id, none when the id is not a key.\<close>

definition recorded :: "(jsstring \<times> jsstring list) list \<Rightarrow> jsstring \<Rightarrow> jsstring list" where
  "recorded m s = (case map_of m s of Some bs \<Rightarrow> bs | None \<Rightarrow> [])"

section \<open>Window resolver\<close>

text \<open>
  A \<^verbatim>\<open>Date\<close> holds a time value, the milliseconds of an instant since the epoch, and
  reads and writes its fields through the local time of the configured time zone, as
  ECMAScript defines them: \<^verbatim>\<open>LocalTime(t) = t + LocalTZA(t, true)\<close> and
  \<^verbatim>\<open>UTC(t) = t - LocalTZA(t, false)\<close>, where the offset of a local time that a transition
  skips or repeats is the offset before the transition. A time zone is its two offset
  functions. \<^verbatim>\<open>Day(t) = floor(t / msPerDay)\<close> and \<^verbatim>\<open>WeekDay(t) = (Day(t) + 4) mod 7\<close>, with
  Sunday 0.
\<close>

record zone =
  offset_at :: "int \<Rightarrow> int"
  offset_of_local :: "int \<Rightarrow> int"

definition LocalTime :: "zone \<Rightarrow> int \<Rightarrow> int" where
  "LocalTime z t = t + offset_at z t"

definition UTC :: "zone \<Rightarrow> int \<Rightarrow> int" where
  "UTC z t = t - offset_of_local z t"

definition msPerDay :: int where
  "msPerDay = 86400000"














text \<open>
  A time zone keeps the bounds of the days when every local midnight and every last
  millisecond of a local day is the local time of the instant that \<^verbatim>\<open>UTC\<close> gives for it,
  no earlier instant shows a local time at or after that midnight, and no later instant shows
  a local time up to that last millisecond. A zone with a fixed offset does, and so does a
  zone whose transitions move the clock within one local day.
\<close>

definition day_bounds_kept :: "zone \<Rightarrow> bool" where
  "day_bounds_kept z =
     (\<forall>d. LocalTime z (UTC z (d * msPerDay)) = d * msPerDay
        \<and> LocalTime z (UTC z (d * msPerDay + (msPerDay - 1))) = d * msPerDay + (msPerDay - 1)
        \<and> (\<forall>a. d * msPerDay \<le> LocalTime z a \<longrightarrow> UTC z (d * msPerDay) \<le> a)
        \<and> (\<forall>a. LocalTime z a \<le> d * msPerDay + (msPerDay - 1)
               \<longrightarrow> a \<le> UTC z (d * msPerDay + (msPerDay - 1))))"

section \<open>Hierarchical summarizer\<close>

record item =
  meta :: CommitMeta
  summary :: jsstring

text \<open>
  A prompt is kept as the values that the template interpolates: for a chunk the commit,
  the position of the chunk, the number of chunks and the chunk; for a commit the commit and
  its leaf summaries; for the window the week label, the per-commit items and the repository
  name. The wording of the templates plays no part: the service is any function of the
  prompt.
\<close>

datatype prompt =
    ChunkPrompt CommitMeta nat nat jsstring
  | MergePrompt CommitMeta "jsstring list"
  | WeeklyPrompt jsstring "item list" jsstring

text \<open>
  What the endpoints answer. The summarization service answers the \<open>n\<close>-th request of a run
  with a text (\<open>Inr\<close>, the promise of \<^verbatim>\<open>chat\<close> resolves) or fails (\<open>Inl\<close> with the text
  of the error, the promise rejects). For a webhook URL that has a scheme, the request
  with a payload is rejected before any response (\<open>NetworkError\<close>: the rest of the URL does
  not parse, or the request emits \<^verbatim>\<open>error\<close>) or gets a response with a status code.
\<close>

datatype http_reply = NetworkError jsstring | Response nat

record world =
  svc :: "nat \<Rightarrow> prompt \<Rightarrow> jsstring + jsstring"
  lark :: "jsstring \<Rightarrow> jsstring \<Rightarrow> http_reply"

record config =
  DIFF_CHUNK_MAX_CHARS :: int
  PER_BRANCH_LIMIT :: int
  REPO :: jsstring
  LARK_WEBHOOK_URL :: jsstring
  weekLabel :: jsstring

text \<open>A call of \<^verbatim>\<open>chat\<close>; the requests sent so far are the state.\<close>

definition chat :: "world \<Rightarrow> prompt list \<Rightarrow> prompt \<Rightarrow> (jsstring + jsstring) \<times> prompt list" where
  "chat w calls p = (svc w (length calls) p, calls @ [p])"

text \<open>A positive number in a template literal: its decimal digits.\<close>

fun show_nat :: "nat \<Rightarrow> jsstring" where
  "show_nat n = (if n < 10 then [48 + n] else show_nat (n div 10) @ [48 + n mod 10])"

declare show_nat.simps [simp del]

text \<open>
  The literals of the main flow, as code units (they are Chinese text, with full-width
  brackets U+FF08 and U+FF09): the opening of a leaf placeholder, "(fragment"; its ending
  when the answer is empty, "summary is empty)"; the middle and the ending when the call
  fails, "call failed:" and ")"; the placeholder of a commit without content; the label of
  the degraded report, "(the weekly merge failed, the summaries follow as they are)" and
  two line feeds; the separator of the items, \<^verbatim>\<open>\n\n---\n\n\<close>; the dash U+2014 between
  spaces; \<^verbatim>\<open>, \<close>; and \<^verbatim>\<open>repository\<close>.
\<close>

definition fragment_open :: jsstring where
  "fragment_open = [65288, 29255, 27573]"

definition empty_close :: jsstring where
  "empty_close = [25688, 35201, 20026, 31354, 65289]"

definition failed_mid :: jsstring where
  "failed_mid = [35843, 29992, 22833, 36133, 65306]"

definition paren_close :: jsstring where
  "paren_close = [65289]"

definition no_content :: jsstring where
  "no_content = [65288, 26080, 26377, 25928, 20869, 23481, 25110, 25913, 21160, 24050, 34987,
     36807, 28388, 65292, 20363, 22914, 32, 108, 111, 99, 107, 102, 105, 108, 101, 47, 26500,
     24314, 20135, 29289, 47, 20108, 36827, 21046, 65292, 25110, 31354, 25552, 20132, 65289]"

definition weekly_failed_label :: jsstring where
  "weekly_failed_label = [65288, 26412, 21608, 27719, 24635, 22833, 36133, 65292, 20197, 19979,
     20026, 36880, 26465, 21407, 22987, 23567, 32467, 25340, 25509, 65289, 10, 10]"

definition item_separator :: jsstring where
  "item_separator = [10, 10, 45, 45, 45, 10, 10]"

definition dash_sep :: jsstring where
  "dash_sep = [32, 8212, 32]"

definition comma_sep :: jsstring where
  "comma_sep = [44, 32]"

definition repository :: jsstring where
  "repository = [114, 101, 112, 111, 115, 105, 116, 111, 114, 121]"

text \<open>The leaf summary of chunk \<open>i\<close> (counted from 1) when the answer is empty, and when
  the call fails with the error \<open>e\<close>.\<close>

definition empty_summary :: "nat \<Rightarrow> jsstring" where
  "empty_summary i = fragment_open @ show_nat i @ empty_close"

definition failed_summary :: "nat \<Rightarrow> jsstring \<Rightarrow> jsstring" where
  "failed_summary i e = fragment_open @ show_nat i @ failed_mid @ e @ paren_close"

text \<open>The leaf summary that the loop records for chunk \<open>i\<close> (counted from 1), by the
  outcome of the call: \<^verbatim>\<open>sum || placeholder\<close> in the \<^verbatim>\<open>try\<close>, the fallback in the
  \<^verbatim>\<open>catch\<close>.\<close>

definition leaf_of :: "jsstring + jsstring \<Rightarrow> nat \<Rightarrow> jsstring" where
  "leaf_of r i =
     (case r of
        Inr answer \<Rightarrow> (if answer \<noteq> [] then answer else empty_summary i)
      | Inl e \<Rightarrow> failed_summary i e)"

text \<open>The loop over the chunks of a commit; \<open>i\<close> is the index of the next chunk, from 0.\<close>

fun summarize_chunks ::
  "world \<Rightarrow> CommitMeta \<Rightarrow> nat \<Rightarrow> nat \<Rightarrow> jsstring list \<Rightarrow> prompt list \<Rightarrow> jsstring list
   \<Rightarrow> jsstring list \<times> prompt list" where
  "summarize_chunks w m len i [] calls partSummaries = (partSummaries, calls)"
| "summarize_chunks w m len i (c # cs) calls partSummaries =
     (case chat w calls (ChunkPrompt m (i + 1) len c) of
        (Inr answer, calls') \<Rightarrow>
          summarize_chunks w m len (i + 1) cs calls'
            (partSummaries @ [if answer \<noteq> [] then answer else empty_summary (i + 1)])
      | (Inl e, calls') \<Rightarrow>
          summarize_chunks w m len (i + 1) cs calls'
            (partSummaries @ [failed_summary (i + 1) e]))"

text \<open>The body of the loop over the commits. \<open>None\<close>: the chunker does not return.\<close>

definition process_commit ::
  "config \<Rightarrow> git \<Rightarrow> world \<Rightarrow> CommitMeta \<Rightarrow> prompt list \<Rightarrow> (item \<times> prompt list) option" where
  "process_commit cfg g w m calls =
     (let fullPatch = getDiff g (sha m) in
      if fullPatch = [] \<or> trim fullPatch = []
      then Some (\<lparr>meta = m, summary = no_content\<rparr>, calls)
      else
        (case chunkBySize (splitPatchByFile fullPatch) (DIFF_CHUNK_MAX_CHARS cfg) of
           None \<Rightarrow> None
         | Some chunks \<Rightarrow>
             (case summarize_chunks w m (length chunks) 0 chunks calls [] of
                (partSummaries, calls1) \<Rightarrow>
                  (case chat w calls1 (MergePrompt m partSummaries) of
                     (Inr merged, calls2) \<Rightarrow> Some (\<lparr>meta = m, summary = merged\<rparr>, calls2)
                   | (Inl e, calls2) \<Rightarrow>
                       Some (\<lparr>meta = m, summary = js_join nn partSummaries\<rparr>, calls2)))))"

fun summarize_commits ::
  "config \<Rightarrow> git \<Rightarrow> world \<Rightarrow> CommitMeta list \<Rightarrow> item list \<Rightarrow> prompt list
   \<Rightarrow> (item list \<times> prompt list) option" where
  "summarize_commits cfg g w [] perCommitFinal calls = Some (perCommitFinal, calls)"
| "summarize_commits cfg g w (m # ms) perCommitFinal calls =
     (case process_commit cfg g w m calls of
        None \<Rightarrow> None
      | Some (it, calls') \<Rightarrow> summarize_commits cfg g w ms (perCommitFinal @ [it]) calls')"

text \<open>The report that stands in for a failed window merge.\<close>

definition fallback_line :: "item \<Rightarrow> jsstring" where
  "fallback_line it =
     [91] @ js_slice (sha (meta it)) 0 7 @ [93, 32] @ title (meta it) @ dash_sep
       @ js_join comma_sep (branches (meta it)) @ [10] @ summary it"

definition weekly_fallback :: "item list \<Rightarrow> jsstring" where
  "weekly_fallback items = weekly_failed_label @ js_join item_separator (map fallback_line items)"

text \<open>The window report: the text, with the items it was made from and the requests sent.\<close>

definition weekly_report ::
  "config \<Rightarrow> git \<Rightarrow> world \<Rightarrow> CommitMeta list \<Rightarrow> (jsstring \<times> item list \<times> prompt list) option" where
  "weekly_report cfg g w metas =
     (case summarize_commits cfg g w metas [] [] of
        None \<Rightarrow> None
      | Some (items, calls) \<Rightarrow>
          (case chat w calls
                  (WeeklyPrompt (weekLabel cfg) items (if REPO cfg \<noteq> [] then REPO cfg else repository)) of
             (Inr weekly, calls') \<Rightarrow> Some (weekly, items, calls')
           | (Inl e, calls') \<Rightarrow> Some (weekly_fallback items, items, calls')))"

section \<open>Dispatch and the top level\<close>

text \<open>
  \<^verbatim>\<open>new URL(LARK_WEBHOOK_URL)\<close> has no base URL, so it throws when the string has no
  scheme. The URL parser strips the code units up to U+0020 at both ends, removes tabs and
  line breaks, and then reads a scheme: an ASCII letter, then letters, digits, \<^verbatim>\<open>+\<close>,
  \<^verbatim>\<open>-\<close> and \<^verbatim>\<open>.\<close>, up to a colon.
\<close>

definition is_ascii_alpha :: "nat \<Rightarrow> bool" where
  "is_ascii_alpha c = ((65 \<le> c \<and> c \<le> 90) \<or> (97 \<le> c \<and> c \<le> 122))"

definition is_scheme_char :: "nat \<Rightarrow> bool" where
  "is_scheme_char c = (is_ascii_alpha c \<or> (48 \<le> c \<and> c \<le> 57) \<or> c = 43 \<or> c = 45 \<or> c = 46)"

definition url_has_scheme :: "jsstring \<Rightarrow> bool" where
  "url_has_scheme u =
     (case filter (\<lambda>c. c \<noteq> 9 \<and> c \<noteq> 10 \<and> c \<noteq> 13)
             (rev (dropWhile (\<lambda>c. c \<le> 32) (rev (dropWhile (\<lambda>c. c \<le> 32) u)))) of
        [] \<Rightarrow> False
      | c # cs \<Rightarrow>
          is_ascii_alpha c \<and>
          (case dropWhile is_scheme_char cs of [] \<Rightarrow> False | d # ds \<Rightarrow> d = 58))"

text \<open>
  How a run ends: without commits (exit code 0 and no report), with the report printed
  because no webhook is configured, with the report sent, or with the error that the
  top-level \<^verbatim>\<open>catch\<close> logs before \<^verbatim>\<open>process.exit(1)\<close>: the \<^verbatim>\<open>TypeError\<close> of
  \<^verbatim>\<open>new URL\<close>, or the error of the request.
\<close>

datatype failure = InvalidURL | RequestError jsstring

datatype outcome = NoCommits | Printed jsstring | Sent jsstring | Failed failure

fun exit_code :: "outcome \<Rightarrow> nat" where
  "exit_code NoCommits = 0"
| "exit_code (Printed text) = 0"
| "exit_code (Sent text) = 0"
| "exit_code (Failed e) = 1"

text \<open>\<^verbatim>\<open>postToLark\<close>: without a webhook the text is printed. Otherwise the promise rejects
  when \<^verbatim>\<open>new URL\<close> throws or the request emits \<^verbatim>\<open>error\<close>, and resolves at the end of a
  response, whatever its status code.\<close>

definition postToLark :: "config \<Rightarrow> world \<Rightarrow> jsstring \<Rightarrow> outcome" where
  "postToLark cfg w text =
     (if LARK_WEBHOOK_URL cfg = [] then Printed text
      else if \<not> url_has_scheme (LARK_WEBHOOK_URL cfg) then Failed InvalidURL
      else (case lark w (LARK_WEBHOOK_URL cfg) text of
              NetworkError e \<Rightarrow> Failed (RequestError e)
            | Response status \<Rightarrow> Sent text))"

text \<open>The script from the collected commits on: the exit without commits, the main flow
  and the dispatch.\<close>

definition run :: "config \<Rightarrow> git \<Rightarrow> world \<Rightarrow> outcome option" where
  "run cfg g w =
     (if commitShas g (PER_BRANCH_LIMIT cfg) = [] then Some NoCommits
      else
        (case weekly_report cfg g w (commitMetas g (PER_BRANCH_LIMIT cfg) (REPO cfg)) of
           None \<Rightarrow> None
         | Some (weekly, items, calls) \<Rightarrow> Some (postToLark cfg w weekly)))"

text \<open>Whether a delivery to the webhook failed: no response, or a response whose status
  code is not a success, as \<^verbatim>\<open>chat\<close> tells a failure of its own endpoint.\<close>

definition delivery_failed :: "http_reply \<Rightarrow> bool" where
  "delivery_failed r = (case r of NetworkError e \<Rightarrow> True | Response status \<Rightarrow> \<not> (200 \<le> status \<and> status < 300))"

section \<open>Concrete inputs\<close>



definition one_file_patch :: jsstring where
  "one_file_patch = [100, 105, 102, 102, 32, 45, 45, 103, 105, 116, 32, 97, 47, 102, 32, 98, 47, 102,
     10, 43, 97, 98, 99, 100, 101, 102]"

text \<open>
  Two contents of one file whose header line is \<^verbatim>\<open>diff --git a/f b/f\<close>, with their units:
  one of 35 code units, 3.5 times the limit 10, whose unit has 16 code units; and one of 140
  code units, 3.5 times the limit 40, whose unit has 121 code units.
\<close>

definition short_patch :: jsstring where
  "short_patch =
    [100, 105, 102, 102, 32, 45, 45, 103, 105, 116, 32, 97, 47, 102, 32, 98, 47, 102, 10, 43,
     97, 98, 99, 100, 101, 102, 103, 104, 105, 106, 107, 108, 109, 110, 111]"

definition short_unit :: jsstring where
  "short_unit =
    [43, 97, 98, 99, 100, 101, 102, 103, 104, 105, 106, 107, 108, 109, 110, 111]"

definition long_patch :: jsstring where
  "long_patch =
    [100, 105, 102, 102, 32, 45, 45, 103, 105, 116, 32, 97, 47, 102, 32, 98, 47, 102, 10, 45,
     45, 45, 32, 97, 47, 102, 10, 43, 43, 43, 32, 98, 47, 102, 10, 64, 64, 32, 45, 48, 44,
     48, 32, 43, 49, 44, 51, 32, 64, 64, 10, 43, 97, 108, 112, 104, 97, 32, 98, 101, 116, 97,
     32, 103, 97, 109, 109, 97, 32, 100, 101, 108, 116, 97, 10, 43, 101, 112, 115, 105, 108,
     111, 110, 32, 122, 101, 116, 97, 32, 101, 116, 97, 32, 116, 104, 101, 116, 97, 32, 105,
     111, 116, 97, 10, 43, 107, 97, 112, 112, 97, 32, 108, 97, 109, 98, 100, 97, 32, 109,
     117, 32, 110, 117, 32, 120, 105, 32, 111, 109, 105, 99, 114, 111, 110, 32, 112, 105, 33,
     33, 33]"

definition long_unit :: jsstring where
  "long_unit =
    [45, 45, 45, 32, 97, 47, 102, 10, 43, 43, 43, 32, 98, 47, 102, 10, 64, 64, 32, 45, 48,
     44, 48, 32, 43, 49, 44, 51, 32, 64, 64, 10, 43, 97, 108, 112, 104, 97, 32, 98, 101, 116,
     97, 32, 103, 97, 109, 109, 97, 32, 100, 101, 108, 116, 97, 10, 43, 101, 112, 115, 105,
     108, 111, 110, 32, 122, 101, 116, 97, 32, 101, 116, 97, 32, 116, 104, 101, 116, 97, 32,
     105, 111, 116, 97, 10, 43, 107, 97, 112, 112, 97, 32, 108, 97, 109, 98, 100, 97, 32,
     109, 117, 32, 110, 117, 32, 120, 105, 32, 111, 109, 105, 99, 114, 111, 110, 32, 112,
     105, 33, 33, 33]"

text \<open>
  A history with the branches \<^verbatim>\<open>b\<close> and \<^verbatim>\<open>a\<close>, listed in that order, and the commits
  \<^verbatim>\<open>1\<close>, \<^verbatim>\<open>2\<close>, \<^verbatim>\<open>4\<close>, \<^verbatim>\<open>3\<close> from the oldest to the newest. Commit \<^verbatim>\<open>2\<close> is on both
  branches, commit \<^verbatim>\<open>4\<close> on none of them; branch \<^verbatim>\<open>b\<close> has \<^verbatim>\<open>1\<close> and \<^verbatim>\<open>2\<close>, branch
  \<^verbatim>\<open>a\<close> has \<^verbatim>\<open>2\<close> and \<^verbatim>\<open>3\<close>. No commit has a diff.
\<close>

definition example_git :: git where
  "example_git =
     \<lparr>remoteBranches = [[98], [97]],
      branchLog = (\<lambda>rb. if rb = [97] then [[50], [51]] else if rb = [98] then [[49], [50]] else []),
      allShasOrdered = [[49], [50], [52], [51]],
      titleOf = (\<lambda>s. [116]),
      authorOf = (\<lambda>s. [117]),
      getDiff = (\<lambda>s. [])\<rparr>"

text \<open>
  A history where the cap bites: branch \<^verbatim>\<open>a\<close> has the commits \<^verbatim>\<open>1\<close>, \<^verbatim>\<open>2\<close> and branch
  \<^verbatim>\<open>b\<close> has \<^verbatim>\<open>1\<close>, \<^verbatim>\<open>2\<close>, \<^verbatim>\<open>3\<close>, for a run with \<^verbatim>\<open>PER_BRANCH_LIMIT=1\<close>.
\<close>

definition capped_git :: git where
  "capped_git =
     \<lparr>remoteBranches = [[97], [98]],
      branchLog = (\<lambda>rb. if rb = [97] then [[49], [50]]
                         else if rb = [98] then [[49], [50], [51]] else []),
      allShasOrdered = [[49], [50], [51]],
      titleOf = (\<lambda>s. [116]),
      authorOf = (\<lambda>s. [117]),
      getDiff = (\<lambda>s. [])\<rparr>"

text \<open>The same history where commit \<^verbatim>\<open>2\<close> has the patch of one file.\<close>

definition patch_git :: git where
  "patch_git = example_git\<lparr>getDiff := (\<lambda>s. if s = [50] then one_file_patch else [])\<rparr>"

text \<open>The webhook URL \<^verbatim>\<open>https://open.feishu.cn/open-apis/bot/v2/hook/x\<close>, the week label
  \<^verbatim>\<open>2018-10-29 ~ 2018-11-04\<close>, the text of the error with which \<^verbatim>\<open>chat\<close> rejects on a
  response of status 500 without a body, \<^verbatim>\<open>Error: OpenAI HTTP 500: \<close>, and the error text
  \<^verbatim>\<open>Error: connect ECONNREFUSED\<close> of a request that no endpoint takes.\<close>

definition hook_url :: jsstring where
  "hook_url = [104, 116, 116, 112, 115, 58, 47, 47, 111, 112, 101, 110, 46, 102, 101, 105, 115,
     104, 117, 46, 99, 110, 47, 111, 112, 101, 110, 45, 97, 112, 105, 115, 47, 98, 111, 116, 47,
     118, 50, 47, 104, 111, 111, 107, 47, 120]"

definition week_label :: jsstring where
  "week_label = [50, 48, 49, 56, 45, 49, 48, 45, 50, 57, 32, 126, 32, 50, 48, 49, 56, 45, 49, 49,
     45, 48, 52]"

definition http_500 :: jsstring where
  "http_500 = [69, 114, 114, 111, 114, 58, 32, 79, 112, 101, 110, 65, 73, 32, 72, 84, 84, 80,
     32, 53, 48, 48, 58, 32]"

definition refused :: jsstring where
  "refused = [69, 114, 114, 111, 114, 58, 32, 99, 111, 110, 110, 101, 99, 116, 32, 69, 67, 79,
     78, 78, 82, 69, 70, 85, 83, 69, 68]"

text \<open>A configuration with the default limits and that webhook. Three worlds whose webhook
  answers the requests to that URL and no other: a service that fails every request with
  the error of a response of status 500, a service that answers every request with the empty text, as
  \<^verbatim>\<open>chat\<close> does for a response without content, both with a webhook that answers 200;
  and a service that answers \<^verbatim>\<open>ok\<close> next to a webhook that answers with status 500.\<close>

definition example_config :: config where
  "example_config =
     \<lparr>DIFF_CHUNK_MAX_CHARS = 80000, PER_BRANCH_LIMIT = 200, REPO = [],
      LARK_WEBHOOK_URL = hook_url, weekLabel = week_label\<rparr>"

definition failing_world :: world where
  "failing_world =
     \<lparr>svc = (\<lambda>n p. Inl http_500),
      lark = (\<lambda>u t. if u = hook_url then Response 200 else NetworkError refused)\<rparr>"

definition silent_world :: world where
  "silent_world =
     \<lparr>svc = (\<lambda>n p. Inr []),
      lark = (\<lambda>u t. if u = hook_url then Response 200 else NetworkError refused)\<rparr>"

definition refused_world :: world where
  "refused_world =
     \<lparr>svc = (\<lambda>n p. Inr [111, 107]),
      lark = (\<lambda>u t. if u = hook_url then Response 500 else NetworkError refused)\<rparr>"

text \<open>The commit \<^verbatim>\<open>2\<close> of the example, as collected.\<close>

definition example_meta :: CommitMeta where
  "example_meta = \<lparr>sha = [50], title = [116], author = [117],
     url = serverUrl @ commit_path @ [50], branches = [[97], [98]]\<rparr>"



section \<open>The slicing loop\<close>

lemma js_slice_window:
  assumes "0 < limit" "0 \<le> i" "i < int (length p)"
  shows "js_slice p i (i + limit) = take (nat limit) (drop (nat i) p)"
proof -
  have "min (i + limit) (int (length p)) - i = min limit (int (length p) - i)"
    by simp
  moreover have "take (nat (min limit (int (length p) - i))) (drop (nat i) p)
      = take (nat limit) (drop (nat i) p)"
    using assms by (simp add: min_def nat_diff_distrib nat_le_iff)
  ultimately show ?thesis
    using assms by (simp add: js_slice_def Let_def min_def)
qed

lemma slice_loop_total:
  "0 < limit \<Longrightarrow> 0 \<le> i \<Longrightarrow> slice_loop p limit i out = Some (out @ slices_from p limit i)"
proof (induction "nat (int (length p) - i)" arbitrary: i out rule: less_induct)
  case less
  show ?case
  proof (cases "i < int (length p)")
    case True
    have "nat (int (length p) - (i + limit)) < nat (int (length p) - i)"
      using True less.prems by simp
    then have "slice_loop p limit (i + limit) (out @ [js_slice p i (i + limit)])
        = Some ((out @ [js_slice p i (i + limit)]) @ slices_from p limit (i + limit))"
      using less.prems by (intro less.hyps) simp_all
    then show ?thesis
      using True less.prems
      by (subst slice_loop.simps, subst slices_from.simps)
         (simp add: js_slice_window)
  next
    case False
    then show ?thesis
      by (subst slice_loop.simps, subst slices_from.simps) simp
  qed
qed

lemma slice_loop_diverges:
  assumes "slice_loop p limit i out = Some r"
  shows "limit \<le> 0 \<longrightarrow> \<not> i < int (length p)"
  using assms
proof (rule slice_loop.raw_induct [rotated,
      where P = "\<lambda>p limit i out r. limit \<le> 0 \<longrightarrow> \<not> i < int (length p)"], goal_cases)
  case (1 loop p limit i out r)
  show ?case
  proof (intro impI notI)
    assume le: "limit \<le> 0" and lt: "i < int (length p)"
    with 1(2) have "loop p limit (i + limit) (out @ [js_slice p i (i + limit)]) = Some r"
      by simp
    then have "limit \<le> 0 \<longrightarrow> \<not> i + limit < int (length p)"
      by (rule 1(1))
    with le lt show False by simp
  qed
qed

lemma slice_loop_nonpositive:
  assumes "slice_loop p limit i out = Some r" "limit \<le> 0"
  shows "r = out"
proof -
  have "\<not> i < int (length p)" using slice_loop_diverges [OF assms(1)] assms(2) by simp
  with assms(1) show ?thesis by (subst (asm) slice_loop.simps) simp
qed

lemma slices_from_bound:
  "c \<in> set (slices_from p limit i) \<Longrightarrow> int (length c) \<le> limit"
proof (induction p limit i rule: slices_from.induct)
  case (1 p limit i)
  then show ?case
    by (subst (asm) (2) slices_from.simps) (auto split: if_splits)
qed


section \<open>The packing loop\<close>

lemma slice_loop_Some:
  assumes "slice_loop p limit 0 out = Some r"
  shows "r = out @ slices_from p limit 0"
proof (cases "0 < limit")
  case True
  then show ?thesis using assms by (simp add: slice_loop_total)
next
  case False
  then have "r = out" using slice_loop_nonpositive [OF assms] by simp
  moreover have "slices_from p limit 0 = []"
    using False by (subst slices_from.simps) simp
  ultimately show ?thesis by simp
qed

lemma chunk_loop_total:
  "0 < limit \<Longrightarrow> \<exists>r. chunk_loop limit ps out buf = Some r"
  by (induction ps arbitrary: out buf) (simp_all add: Let_def slice_loop_total)

lemma chunk_loop_bound:
  assumes "chunk_loop limit ps out buf = Some (out', buf')"
    and "\<forall>c\<in>set out. int (length c) \<le> limit"
    and "buf = [] \<or> int (length buf) \<le> limit"
  shows "(\<forall>c\<in>set out'. int (length c) \<le> limit) \<and> (buf' = [] \<or> int (length buf') \<le> limit)"
  using assms
proof (induction ps arbitrary: out buf)
  case Nil
  then show ?case by simp
next
  case (Cons p ps)
  let ?cand = "if buf \<noteq> [] then buf @ nn @ p else p"
  let ?out1 = "if buf \<noteq> [] then out @ [buf] else out"
  have out1: "\<forall>c\<in>set ?out1. int (length c) \<le> limit"
    using Cons.prems(2,3) by auto
  show ?case
  proof (cases "int (length ?cand) > limit")
    case fits: False
    then have eq: "chunk_loop limit ps out ?cand = Some (out', buf')"
      using Cons.prems(1) by (simp add: Let_def)
    have "?cand = [] \<or> int (length ?cand) \<le> limit"
      using fits by simp
    with eq Cons.prems(2) show ?thesis
      by (rule Cons.IH)
  next
    case over: True
    show ?thesis
    proof (cases "int (length p) > limit")
      case False
      then have eq: "chunk_loop limit ps ?out1 p = Some (out', buf')"
        using Cons.prems(1) over by (simp add: Let_def)
      have "p = [] \<or> int (length p) \<le> limit"
        using False by simp
      with eq out1 show ?thesis
        by (rule Cons.IH)
    next
      case True
      then obtain out2 where sl: "slice_loop p limit 0 ?out1 = Some out2"
        and rest: "chunk_loop limit ps out2 [] = Some (out', buf')"
        using Cons.prems(1) over by (auto simp: Let_def split: option.splits if_splits)
      have "out2 = ?out1 @ slices_from p limit 0"
        using sl by (rule slice_loop_Some)
      then have "\<forall>c\<in>set out2. int (length c) \<le> limit"
        using out1 slices_from_bound by auto
      with rest show ?thesis
        by (rule Cons.IH) simp
    qed
  qed
qed


lemma chunk_loop_mono:
  "chunk_loop limit ps out buf = Some (out', buf') \<Longrightarrow> set out \<subseteq> set out'"
proof (induction ps arbitrary: out buf)
  case Nil
  then show ?case by simp
next
  case (Cons p ps)
  let ?cand = "if buf \<noteq> [] then buf @ nn @ p else p"
  let ?out1 = "if buf \<noteq> [] then out @ [buf] else out"
  consider (fits) "chunk_loop limit ps out ?cand = Some (out', buf')"
    | (flush) "chunk_loop limit ps ?out1 p = Some (out', buf')"
    | (slice) out2 where "slice_loop p limit 0 ?out1 = Some out2"
        "chunk_loop limit ps out2 [] = Some (out', buf')"
    using Cons.prems by (auto simp: Let_def split: option.splits if_splits)
  then show ?case
  proof cases
    case fits
    then show ?thesis by (rule Cons.IH)
  next
    case flush
    then have "set ?out1 \<subseteq> set out'" by (rule Cons.IH)
    then show ?thesis by (auto split: if_splits)
  next
    case slice
    have "out2 = ?out1 @ slices_from p limit 0"
      using slice(1) by (rule slice_loop_Some)
    moreover have "set out2 \<subseteq> set out'" using slice(2) by (rule Cons.IH)
    ultimately show ?thesis by (auto split: if_splits)
  qed
qed

lemma chunk_loop_full_buf:
  assumes "0 < limit" "int (length buf) = limit"
    and "chunk_loop limit ps out buf = Some (out', buf')"
  shows "buf \<in> set out' \<or> buf' = buf"
proof (cases ps)
  case Nil
  then show ?thesis using assms(3) by simp
next
  case (Cons p ps')
  have ne: "buf \<noteq> []" using assms(1,2) by auto
  have over: "int (length (buf @ nn @ p)) > limit"
    using assms(2) by (simp add: nn_def)
  consider (flush) "chunk_loop limit ps' (out @ [buf]) p = Some (out', buf')"
    | (slice) out2 where "slice_loop p limit 0 (out @ [buf]) = Some out2"
        "chunk_loop limit ps' out2 [] = Some (out', buf')"
    using assms(3) Cons ne over by (auto simp: Let_def split: option.splits if_splits)
  then show ?thesis
  proof cases
    case flush
    then have "set (out @ [buf]) \<subseteq> set out'" by (rule chunk_loop_mono)
    then show ?thesis by simp
  next
    case slice
    have "out2 = (out @ [buf]) @ slices_from p limit 0"
      using slice(1) by (rule slice_loop_Some)
    moreover have "set out2 \<subseteq> set out'" using slice(2) by (rule chunk_loop_mono)
    ultimately show ?thesis by auto
  qed
qed

lemma chunk_loop_boundary_unit:
  assumes "0 < limit" "int (length u) = limit"
  shows "u \<in> set ps \<Longrightarrow> chunk_loop limit ps out buf = Some (out', buf')
    \<Longrightarrow> u \<in> set out' \<or> buf' = u"
proof (induction ps arbitrary: out buf)
  case Nil
  then show ?case by simp
next
  case (Cons p ps)
  let ?cand = "if buf \<noteq> [] then buf @ nn @ p else p"
  let ?out1 = "if buf \<noteq> [] then out @ [buf] else out"
  show ?case
  proof (cases "p = u")
    case True
    have "buf \<noteq> [] \<Longrightarrow> int (length ?cand) > limit"
      using assms(2) True by (simp add: nn_def)
    moreover have "\<not> int (length u) > limit" using assms(2) by simp
    ultimately have "chunk_loop limit ps ?out1 u = Some (out', buf')"
      using Cons.prems(2) True by (auto simp: Let_def split: if_splits)
    with assms show ?thesis by (rule chunk_loop_full_buf)
  next
    case False
    then have mem: "u \<in> set ps" using Cons.prems(1) by simp
    consider (fits) "chunk_loop limit ps out ?cand = Some (out', buf')"
      | (flush) "chunk_loop limit ps ?out1 p = Some (out', buf')"
      | (slice) out2 where "slice_loop p limit 0 ?out1 = Some out2"
          "chunk_loop limit ps out2 [] = Some (out', buf')"
      using Cons.prems(2) by (auto simp: Let_def split: option.splits if_splits)
    then show ?thesis
      using mem by cases (auto dest: Cons.IH)
  qed
qed

text \<open>With a limit that is not positive the chunker does not return as soon as a unit is
  not empty.\<close>

lemma slice_loop_stuck:
  "limit \<le> 0 \<Longrightarrow> u \<noteq> [] \<Longrightarrow> slice_loop u limit 0 out = None"
proof (rule ccontr)
  assume le: "limit \<le> 0" and ne: "u \<noteq> []" and "slice_loop u limit 0 out \<noteq> None"
  then obtain r where "slice_loop u limit 0 out = Some r" by auto
  from slice_loop_diverges [OF this] le ne show False by simp
qed

lemma chunk_loop_stuck:
  "limit \<le> 0 \<Longrightarrow> u \<noteq> [] \<Longrightarrow> u \<in> set ps \<Longrightarrow> chunk_loop limit ps out buf = None"
proof (induction ps arbitrary: out buf)
  case Nil
  then show ?case by simp
next
  case (Cons p ps)
  show ?case
  proof (cases "p = u")
    case True
    obtain a us where u: "u = a # us" using Cons.prems(2) by (cases u) auto
    have "int (length (if buf \<noteq> [] then buf @ nn @ u else u)) > limit" "int (length u) > limit"
      unfolding u using Cons.prems(1) by auto
    then show ?thesis
      using True slice_loop_stuck [OF Cons.prems(1,2)] by (simp add: Let_def del: length_append)
  next
    case False
    then have "u \<in> set ps" using Cons.prems(3) by simp
    then have "chunk_loop limit ps out' buf' = None" for out' buf'
      using Cons.prems(1,2) by (intro Cons.IH)
    then show ?thesis
      by (simp add: Let_def split: option.splits)
  qed
qed

lemma chunkBySize_stuck:
  "limit \<le> 0 \<Longrightarrow> u \<noteq> [] \<Longrightarrow> u \<in> set parts \<Longrightarrow> chunkBySize parts limit = None"
  by (simp add: chunkBySize_def chunk_loop_stuck)

section \<open>Size bound of the chunker\<close>

text \<open>
  Claim C4. For every list of logical units and every integer limit, every chunk that
  \<^verbatim>\<open>chunkBySize\<close> returns has at most \<open>limit\<close> code units, the slices of an oversized
  unit included, and a non-empty unit of exactly \<open>limit\<close> code units is returned whole, as a
  chunk of its own. With a positive limit the chunker does return; with another limit it
  returns only when every unit is empty, and then without chunks.
\<close>

theorem chunkBySize_bound:
  "(0 < limit \<longrightarrow> chunkBySize parts limit \<noteq> None) \<and>
   (\<forall>out. chunkBySize parts limit = Some out \<longrightarrow>
      (\<forall>c\<in>set out. int (length c) \<le> limit) \<and>
      (\<forall>u\<in>set parts. u \<noteq> [] \<and> int (length u) = limit \<longrightarrow> u \<in> set out))"
proof (intro conjI impI allI ballI)
  assume "0 < limit"
  then obtain r where "chunk_loop limit parts [] [] = Some r"
    using chunk_loop_total by blast
  then show "chunkBySize parts limit \<noteq> None"
    by (cases r) (simp add: chunkBySize_def)
next
  fix out c
  assume res: "chunkBySize parts limit = Some out" and c: "c \<in> set out"
  from res obtain out' buf' where loop: "chunk_loop limit parts [] [] = Some (out', buf')"
    and out: "out = (if buf' \<noteq> [] then out' @ [buf'] else out')"
    by (auto simp: chunkBySize_def split: option.splits)
  have "(\<forall>c\<in>set out'. int (length c) \<le> limit) \<and> (buf' = [] \<or> int (length buf') \<le> limit)"
    using loop by (rule chunk_loop_bound) simp_all
  with out c show "int (length c) \<le> limit"
    by (auto split: if_splits)
next
  fix out u
  assume res: "chunkBySize parts limit = Some out" and u: "u \<in> set parts"
    and full: "u \<noteq> [] \<and> int (length u) = limit"
  from res obtain out' buf' where loop: "chunk_loop limit parts [] [] = Some (out', buf')"
    and out: "out = (if buf' \<noteq> [] then out' @ [buf'] else out')"
    by (auto simp: chunkBySize_def split: option.splits)
  have "0 < limit" using full by auto
  then have "u \<in> set out' \<or> buf' = u"
    using full u loop chunk_loop_boundary_unit by blast
  with out full show "u \<in> set out"
    by auto
qed

text \<open>Three units packed with the limit 2: the first unit is exactly at the limit, the last
  one is sliced.\<close>

theorem chunkBySize_bound_witness:
  "chunkBySize [[1, 2], [3], [4, 5, 6]] 2 = Some [[1, 2], [3], [4, 5], [6]]
   \<and> list_all (\<lambda>c. int (length c) \<le> 2) [[1, 2], [3], [4, 5], [6 :: nat]]
   \<and> [1, 2] \<in> set [[1, 2], [3], [4, 5], [6 :: nat]]"
proof -
  let ?parts = "[[1, 2], [3], [4, 5, 6 :: nat]]"
  have run: "chunkBySize ?parts 2 = Some [[1, 2], [3], [4, 5], [6]]"
    by (simp add: chunkBySize_def nn_def slice_loop_total slices_from.simps)
  note both = chunkBySize_bound [of 2 ?parts, THEN conjunct2, THEN spec, THEN mp, OF run]
  have unit: "[1, 2] \<in> set ?parts" "[1, 2 :: nat] \<noteq> [] \<and> int (length [1, 2 :: nat]) = 2"
    by simp_all
  from run both [THEN conjunct1, unfolded Ball_set]
    both [THEN conjunct2, THEN bspec, OF unit(1), THEN mp, OF unit(2)]
  show ?thesis by (intro conjI)
qed

lemma slices_from_step:
  "0 < limit \<Longrightarrow> 0 \<le> i \<Longrightarrow> i < int (length p) \<Longrightarrow>
   slices_from p limit i = take (nat limit) (drop (nat i) p) # slices_from p limit (i + limit)"
  by (subst slices_from.simps) simp

lemma slices_from_done:
  "\<not> i < int (length p) \<Longrightarrow> slices_from p limit i = []"
  by (subst slices_from.simps) simp





lemma trim_sublist: "sublist (trim s) s"
proof -
  have "prefix (rev (dropWhile is_white_space (rev (dropWhile is_white_space s))))
      (dropWhile is_white_space s)"
    by (metis rev_rev_ident suffix_dropWhile suffix_to_prefix)
  moreover have "suffix (dropWhile is_white_space s) s"
    by (rule suffix_dropWhile)
  ultimately show ?thesis
    unfolding trim_def
    by (meson prefix_imp_sublist suffix_imp_sublist sublist_order.order.trans)
qed

lemma split_diff_git_sublist:
  "x \<in> set (split_diff_git bol acc s) \<Longrightarrow> sublist x (acc @ s)"
proof (induction bol acc s rule: split_diff_git.induct)
  case (1 bol acc)
  then show ?case by simp
next
  case (2 bol acc c cs)
  show ?case
  proof (cases "bol \<and> take (length diff_git) (c # cs) = diff_git")
    case True
    then consider "x = acc"
      | "x \<in> set (split_diff_git False [] (dropWhile (\<lambda>x. \<not> is_line_terminator x) cs))"
      using 2(3) by auto
    then show ?thesis
    proof cases
      case 1
      then show ?thesis by (simp add: prefix_imp_sublist)
    next
      case 2
      then have "sublist x (dropWhile (\<lambda>x. \<not> is_line_terminator x) cs)"
        using "2.IH"(1) True by simp
      moreover have "suffix (dropWhile (\<lambda>x. \<not> is_line_terminator x) cs) (acc @ c # cs)"
        by (metis suffix_dropWhile suffix_Cons suffix_append suffix_order.trans)
      ultimately show ?thesis
        by (meson suffix_imp_sublist sublist_order.order.trans)
    qed
  next
    case False
    then have "x \<in> set (split_diff_git (is_line_terminator c) (acc @ [c]) cs)"
      using 2(3) by auto
    then have "sublist x ((acc @ [c]) @ cs)"
      using "2.IH"(2) False by simp
    then show ?thesis by simp
  qed
qed

lemma splitPatchByFile_sublist:
  "u \<in> set (splitPatchByFile patch) \<Longrightarrow> sublist u patch"
proof -
  assume "u \<in> set (splitPatchByFile patch)"
  then obtain x where "x \<in> set (split_diff_git True [] patch)" "u = trim x"
    by (auto simp: splitPatchByFile_def split: if_splits)
  then show ?thesis
    using split_diff_git_sublist [of x True "[]" patch] trim_sublist [of x]
    by (auto intro: sublist_order.order.trans)
qed







lemma splitPatchByFile_one_file_patch:
  "splitPatchByFile one_file_patch = [[43, 97, 98, 99, 100, 101, 102]]"
  by (simp add: splitPatchByFile_def one_file_patch_def diff_git_def trim_def
      is_line_terminator_def is_white_space_def)










section \<open>Completeness of the chunker\<close>




lemma slices_of_unit:
  assumes "0 < limit" "3 * limit < int (length u)" "int (length u) \<le> 4 * limit"
  shows "slices_from u limit 0 =
    [take (nat limit) u, take (nat limit) (drop (nat limit) u),
     take (nat limit) (drop (2 * nat limit) u), drop (3 * nat limit) u]"
proof -
  have len: "3 * limit < int (length u)" "\<not> 4 * limit < int (length u)"
    using assms by simp_all
  have "slices_from u limit 0 = take (nat limit) (drop (nat 0) u) # slices_from u limit (0 + limit)"
    by (rule slices_from_step) (use assms(1) len in auto)
  moreover have "slices_from u limit limit
      = take (nat limit) (drop (nat limit) u) # slices_from u limit (limit + limit)"
    by (rule slices_from_step) (use assms(1) len in auto)
  moreover have "slices_from u limit (limit + limit)
      = take (nat limit) (drop (nat (limit + limit)) u) # slices_from u limit (limit + limit + limit)"
    by (rule slices_from_step) (use assms(1) len in auto)
  moreover have "slices_from u limit (limit + limit + limit)
      = take (nat limit) (drop (nat (limit + limit + limit)) u)
        # slices_from u limit (limit + limit + limit + limit)"
    by (rule slices_from_step) (use assms(1) len in auto)
  moreover have "slices_from u limit (limit + limit + limit + limit) = []"
    by (rule slices_from_done) (use len in auto)
  moreover have "nat (limit + limit) = 2 * nat limit" "nat (limit + limit + limit) = 3 * nat limit"
    using assms(1) by simp_all
  moreover have "take (nat limit) (drop (3 * nat limit) u) = drop (3 * nat limit) u"
    using len assms(1) by simp
  ultimately show ?thesis by simp
qed

section \<open>An oversized unit\<close>

lemma unit_four_slices:
  assumes "0 < limit" "splitPatchByFile patch = [u]"
    and "3 * limit < int (length u)" "int (length u) \<le> 4 * limit"
  shows "chunkBySize (splitPatchByFile patch) limit =
      Some [take (nat limit) u, take (nat limit) (drop (nat limit) u),
            take (nat limit) (drop (2 * nat limit) u), drop (3 * nat limit) u]
    \<and> int (length (take (nat limit) u)) = limit
    \<and> int (length (take (nat limit) (drop (nat limit) u))) = limit
    \<and> int (length (take (nat limit) (drop (2 * nat limit) u))) = limit
    \<and> int (length (drop (3 * nat limit) u)) = int (length u) - 3 * limit
    \<and> (2 * int (length u) = 7 * limit \<longrightarrow> 2 * int (length (drop (3 * nat limit) u)) = limit)
    \<and> chunk_loop limit [u] out buf =
        Some (out @ (if buf \<noteq> [] then [buf] else []) @
          [take (nat limit) u, take (nat limit) (drop (nat limit) u),
           take (nat limit) (drop (2 * nat limit) u), drop (3 * nat limit) u], [])"
proof -
  have over: "int (length u) > limit" using assms(1,3) by simp
  then have cand: "int (length (if buf \<noteq> [] then buf @ nn @ u else u)) > limit" for buf
    by simp
  have sl: "slice_loop u limit 0 out1 = Some (out1 @ slices_from u limit 0)" for out1
    using assms(1) by (simp add: slice_loop_total)
  have loop: "chunk_loop limit [u] out buf =
      Some ((if buf \<noteq> [] then out @ [buf] else out) @ slices_from u limit 0, [])" for out buf
    using over cand [of buf] by (simp add: Let_def sl del: length_append)
  have "chunkBySize (splitPatchByFile patch) limit = Some (slices_from u limit 0)"
    using loop [of "[]" "[]"] by (simp add: chunkBySize_def assms(2))
  moreover have "chunk_loop limit [u] out buf =
      Some (out @ (if buf \<noteq> [] then [buf] else []) @ slices_from u limit 0, [])"
    using loop [of out buf] by simp
  moreover have "int (length (take (nat limit) u)) = limit"
    "int (length (take (nat limit) (drop (nat limit) u))) = limit"
    "int (length (take (nat limit) (drop (2 * nat limit) u))) = limit"
    "int (length (drop (3 * nat limit) u)) = int (length u) - 3 * limit"
    "2 * int (length u) = 7 * limit \<longrightarrow> 2 * int (length (drop (3 * nat limit) u)) = limit"
    using assms(1,3) by auto
  ultimately show ?thesis
    by (simp only: slices_of_unit [OF assms(1,3,4)] simp_thms)
qed

lemma unit_within_content: "splitPatchByFile patch = [u] \<Longrightarrow> length u \<le> length patch"
proof -
  assume "splitPatchByFile patch = [u]"
  then have "sublist u patch" by (intro splitPatchByFile_sublist) simp
  then show ?thesis by (auto simp: sublist_def)
qed

lemma splitPatchByFile_short_patch: "splitPatchByFile short_patch = [short_unit]"
  by (simp add: splitPatchByFile_def short_patch_def short_unit_def diff_git_def trim_def
      is_line_terminator_def is_white_space_def)

lemma splitPatchByFile_long_patch: "splitPatchByFile long_patch = [long_unit]"
  by (simp add: splitPatchByFile_def long_patch_def long_unit_def diff_git_def trim_def
      is_line_terminator_def is_white_space_def)

text \<open>
  Claim C7, as amended. When the change content of a commit has 3.5 times the limit and
  is one file, and its logical unit \<open>u\<close>, the content without the header line and the white
  space around, is still longer than three times the limit, the chunker returns four chunks,
  the slices of \<open>u\<close> in order: three of exactly the limit and the rest of \<open>u\<close>, which is not
  empty and shorter than the limit. From any state of the loop the pending buffer, if there
  is one, is pushed first, the slices follow, and the buffer is left empty.
\<close>

theorem oversized_unit_sliced:
  assumes "0 < limit" "2 * int (length patch) = 7 * limit"
    and "splitPatchByFile patch = [u]" "3 * limit < int (length u)"
  shows "chunkBySize (splitPatchByFile patch) limit =
      Some [take (nat limit) u, take (nat limit) (drop (nat limit) u),
            take (nat limit) (drop (2 * nat limit) u), drop (3 * nat limit) u]
    \<and> int (length (take (nat limit) u)) = limit
    \<and> int (length (take (nat limit) (drop (nat limit) u))) = limit
    \<and> int (length (take (nat limit) (drop (2 * nat limit) u))) = limit
    \<and> int (length (drop (3 * nat limit) u)) = int (length u) - 3 * limit
    \<and> 0 < length (drop (3 * nat limit) u) \<and> int (length (drop (3 * nat limit) u)) < limit
    \<and> chunk_loop limit [u] out buf =
        Some (out @ (if buf \<noteq> [] then [buf] else []) @
          [take (nat limit) u, take (nat limit) (drop (nat limit) u),
           take (nat limit) (drop (2 * nat limit) u), drop (3 * nat limit) u], [])"
proof -
  have "length u \<le> length patch" using assms(3) by (rule unit_within_content)
  then have le: "int (length u) \<le> 4 * limit" using assms(1,2) by simp
  note four = unit_four_slices [OF assms(1,3,4) le, of out buf]
  have last: "int (length (drop (3 * nat limit) u)) = int (length u) - 3 * limit"
    using four by simp
  have "2 * int (length u) \<le> 7 * limit"
    using \<open>length u \<le> length patch\<close> assms(2) by simp
  with last assms(1,4) have "0 < length (drop (3 * nat limit) u)"
    "int (length (drop (3 * nat limit) u)) < limit"
    by simp_all
  with four show ?thesis by simp
qed

text \<open>The content of 140 code units, with the limit 40.\<close>

theorem oversized_unit_sliced_witness:
  "2 * int (length long_patch) = 7 * 40 \<and> splitPatchByFile long_patch = [long_unit]
   \<and> chunkBySize (splitPatchByFile long_patch) 40 =
       Some [take (nat 40) long_unit, take (nat 40) (drop (nat 40) long_unit),
             take (nat 40) (drop (2 * nat 40) long_unit), drop (3 * nat 40) long_unit]
   \<and> int (length (drop (3 * nat 40) long_unit)) = int (length long_unit) - 3 * 40
   \<and> length long_unit = 121"
proof -
  have h: "(0::int) < 40" "2 * int (length long_patch) = 7 * 40"
    "splitPatchByFile long_patch = [long_unit]" "3 * 40 < int (length long_unit)"
    by (simp_all add: splitPatchByFile_long_patch) (simp_all add: long_patch_def long_unit_def)
  have n: "length long_unit = 121" by (simp add: long_unit_def)
  note w = oversized_unit_sliced [OF h]
  from h(2,3) w [THEN conjunct1]
    w [THEN conjunct2, THEN conjunct2, THEN conjunct2, THEN conjunct2, THEN conjunct1] n
  show ?thesis by (intro conjI)
qed

text \<open>
  Claim C7 as stated fails: a content of one file that has 3.5 times the limit gives two
  chunks when the header line takes more than half a limit. The content of 35 code units,
  with the limit 10, has a unit of 16 code units, sliced into 10 and 6.
\<close>

theorem content_size_counterexample:
  "2 * int (length short_patch) = 7 * 10 \<and> splitPatchByFile short_patch = [short_unit]
   \<and> chunkBySize (splitPatchByFile short_patch) 10 =
       Some [[43, 97, 98, 99, 100, 101, 102, 103, 104, 105], [106, 107, 108, 109, 110, 111]]"
proof -
  have "chunkBySize (splitPatchByFile short_patch) 10 =
       Some [[43, 97, 98, 99, 100, 101, 102, 103, 104, 105], [106, 107, 108, 109, 110, 111]]"
    unfolding splitPatchByFile_short_patch
    by (simp add: chunkBySize_def short_unit_def slice_loop_total slices_from.simps)
  moreover have "2 * int (length short_patch) = 7 * 10"
    by (simp add: short_patch_def)
  ultimately show ?thesis
    using splitPatchByFile_short_patch by (intro conjI)
qed

section \<open>The attribution map and the collected sequence\<close>

lemma map_of_map_set: "map_of (map_set k v m) = (map_of m)(k \<mapsto> v)"
  by (induction m) (auto simp: fun_eq_iff)

lemma map_has_map_set: "map_has s (map_set k v m) \<longleftrightarrow> s = k \<or> map_has s m"
  by (simp add: map_has_def map_of_map_set)

lemma set_set_add: "set (set_add x s) = insert x (set s)"
  by (auto simp: set_add_def)

lemma distinct_set_add: "distinct s \<Longrightarrow> distinct (set_add x s)"
  by (simp add: set_add_def)

text \<open>The branches recorded for an id, none when the id is not a key.\<close>

lemma branchToCommits_lookup:
  "map_of (branchToCommits g lim rbs m) rb =
     (if rb \<in> set rbs then Some (retained g lim rb) else map_of m rb)"
  by (induction rbs arbitrary: m) (auto simp: map_of_map_set)

lemma add_shas_lookup:
  "map_of (add_shas rb shas m) s =
     (if s \<in> set shas
      then Some (set_add rb (case map_of m s of Some bs \<Rightarrow> bs | None \<Rightarrow> []))
      else map_of m s)"
proof (induction shas arbitrary: m)
  case Nil
  then show ?case by simp
next
  case (Cons x xs)
  let ?m1 = "if \<not> map_has x m then map_set x [] m else m"
  let ?bs = "case map_of m x of Some bs \<Rightarrow> bs | None \<Rightarrow> []"
  have m1: "map_of ?m1 x = Some ?bs"
    by (auto simp: map_has_def map_of_map_set split: option.splits)
  have step: "add_shas rb (x # xs) m = add_shas rb xs (map_set x (set_add rb ?bs) ?m1)"
    using m1 by (simp add: Let_def)
  have look: "map_of (map_set x (set_add rb ?bs) ?m1) = (map_of m)(x \<mapsto> set_add rb ?bs)"
    by (auto simp: map_of_map_set map_has_def fun_eq_iff)
  have idem: "set_add rb (set_add rb ?bs) = set_add rb ?bs"
    by (simp add: set_add_def)
  show ?case
    unfolding step Cons.IH look using idem by (auto split: option.splits)
qed


lemma map_set_keys: "fst ` set (map_set k v m) = insert k (fst ` set m)"
proof (induction m)
  case Nil
  then show ?case by simp
next
  case (Cons e m)
  obtain k' v' where e: "e = (k', v')" by (cases e)
  show ?case
  proof (cases "k = k'")
    case True
    then show ?thesis unfolding e by simp
  next
    case False
    then have "fst ` set (map_set k v (e # m)) = insert k' (fst ` set (map_set k v m))"
      unfolding e by simp
    then show ?thesis unfolding Cons.IH e by auto
  qed
qed

lemma map_set_distinct: "distinct (map fst m) \<Longrightarrow> distinct (map fst (map_set k v m))"
proof (induction m)
  case Nil
  then show ?case by simp
next
  case (Cons e m)
  then show ?case
    using map_set_keys [of k v m] by (cases e) auto
qed

lemma branchToCommits_distinct:
  "distinct (map fst m) \<Longrightarrow> distinct (map fst (branchToCommits g lim rbs m))"
  by (induction rbs arbitrary: m) (simp_all add: map_set_distinct)

lemma branchToCommits_entries:
  "(rb, shas) \<in> set (branchToCommits g lim rbs []) \<longleftrightarrow> rb \<in> set rbs \<and> shas = retained g lim rb"
proof -
  have "distinct (map fst (branchToCommits g lim rbs []))"
    by (rule branchToCommits_distinct) simp
  then have "(rb, shas) \<in> set (branchToCommits g lim rbs [])
      \<longleftrightarrow> map_of (branchToCommits g lim rbs []) rb = Some shas"
    by simp
  then show ?thesis
    by (auto simp: branchToCommits_lookup)
qed

lemma recorded_add_shas:
  "recorded (add_shas rb shas m) s =
     (if s \<in> set shas then set_add rb (recorded m s) else recorded m s)"
  by (simp add: recorded_def add_shas_lookup)

lemma map_has_add_shas:
  "map_has s (add_shas rb shas m) \<longleftrightarrow> s \<in> set shas \<or> map_has s m"
  by (simp add: map_has_def add_shas_lookup)

lemma shaToBranches_recorded:
  "set (recorded (shaToBranches es m) s)
     = set (recorded m s) \<union> {rb. \<exists>shas. (rb, shas) \<in> set es \<and> s \<in> set shas}"
proof (induction es arbitrary: m)
  case Nil
  then show ?case by simp
next
  case (Cons e es)
  obtain rb shas where e: "e = (rb, shas)" by (cases e)
  show ?case
    unfolding e by (auto simp: Cons.IH recorded_add_shas set_set_add)
qed

lemma shaToBranches_distinct:
  "distinct (recorded m s) \<Longrightarrow> distinct (recorded (shaToBranches es m) s)"
proof (induction es arbitrary: m)
  case Nil
  then show ?case by simp
next
  case (Cons e es)
  obtain rb shas where e: "e = (rb, shas)" by (cases e)
  have "distinct (recorded (add_shas rb shas m) s)"
    using Cons.prems by (simp add: recorded_add_shas distinct_set_add)
  then show ?case
    unfolding e by (simp add: Cons.IH)
qed

lemma shaToBranches_has:
  "map_has s (shaToBranches es m)
     \<longleftrightarrow> map_has s m \<or> (\<exists>rb shas. (rb, shas) \<in> set es \<and> s \<in> set shas)"
proof (induction es arbitrary: m)
  case Nil
  then show ?case by simp
next
  case (Cons e es)
  obtain rb shas where e: "e = (rb, shas)" by (cases e)
  show ?case
    unfolding e by (auto simp: Cons.IH map_has_add_shas)
qed

lemma tracked_entries:
  "{rb. \<exists>shas. (rb, shas) \<in> set (branchToCommits g lim (remoteBranches g) []) \<and> s \<in> set shas}
     = {rb \<in> set (remoteBranches g). s \<in> set (retained g lim rb)}"
  by (auto simp: branchToCommits_entries)

lemma attribution_recorded:
  "set (recorded (attribution g lim) s) = {rb \<in> set (remoteBranches g). s \<in> set (retained g lim rb)}"
proof -
  have "recorded [] s = []" by (simp add: recorded_def)
  then show ?thesis
    unfolding attribution_def shaToBranches_recorded tracked_entries by simp
qed

lemma attribution_distinct: "distinct (recorded (attribution g lim) s)"
  unfolding attribution_def by (rule shaToBranches_distinct) (simp add: recorded_def)

lemma attribution_has:
  "map_has s (attribution g lim) \<longleftrightarrow> (\<exists>rb\<in>set (remoteBranches g). s \<in> set (retained g lim rb))"
proof -
  have "\<not> map_has s ([] :: (jsstring \<times> jsstring list) list)" by (simp add: map_has_def)
  then show ?thesis
    unfolding attribution_def shaToBranches_has by (auto simp: branchToCommits_entries)
qed

lemma filter_seen_set:
  "set (filter_seen m seen ss) = {s \<in> set ss. s \<notin> set seen \<and> map_has s m}"
  by (induction ss arbitrary: seen) (auto simp: set_set_add)

lemma filter_seen_distinct: "distinct (filter_seen m seen ss)"
  by (induction ss arbitrary: seen) (auto simp: filter_seen_set set_set_add)

lemma filter_seen_subseq: "subseq (filter_seen m seen ss) ss"
  by (induction ss arbitrary: seen) auto

lemma filter_seen_index:
  "filter_seen m seen ss =
     map (\<lambda>i. ss ! i)
       (filter (\<lambda>i. ss ! i \<notin> set (take i ss) \<and> ss ! i \<notin> set seen \<and> map_has (ss ! i) m)
          [0..<length ss])"
proof (induction ss arbitrary: seen)
  case Nil
  then show ?case by simp
next
  case (Cons s ss)
  let ?P = "\<lambda>seen i. ss ! i \<notin> set (take i ss) \<and> ss ! i \<notin> set seen \<and> map_has (ss ! i) m"
  let ?Q = "\<lambda>i. (s # ss) ! i \<notin> set (take i (s # ss)) \<and> (s # ss) ! i \<notin> set seen
      \<and> map_has ((s # ss) ! i) m"
  have upt: "[0..<length (s # ss)] = 0 # map Suc [0..<length ss]"
    by (simp add: upt_conv_Cons map_Suc_upt del: upt_Suc)
  have tail: "map (\<lambda>i. (s # ss) ! i) (filter ?Q (map Suc [0..<length ss]))
      = map (\<lambda>i. ss ! i) (filter (\<lambda>i. ss ! i \<noteq> s \<and> ?P seen i) [0..<length ss])"
    by (simp add: filter_map comp_def conj_ac)
  have head: "?Q 0 \<longleftrightarrow> s \<notin> set seen \<and> map_has s m"
    by simp
  show ?case
  proof (cases "s \<in> set seen \<or> \<not> map_has s m")
    case True
    then have "\<And>i. (ss ! i \<noteq> s \<and> ?P seen i) = ?P seen i" by auto
    then have "filter (\<lambda>i. ss ! i \<noteq> s \<and> ?P seen i) [0..<length ss] = filter (?P seen) [0..<length ss]"
      by simp
    moreover have "filter_seen m seen (s # ss) = filter_seen m seen ss"
      using True by auto
    ultimately show ?thesis
      unfolding upt using True tail head Cons.IH [of seen] by simp
  next
    case False
    then have "\<And>i. (ss ! i \<noteq> s \<and> ?P seen i) = ?P (set_add s seen) i"
      by (auto simp: set_set_add)
    then have "filter (\<lambda>i. ss ! i \<noteq> s \<and> ?P seen i) [0..<length ss]
        = filter (?P (set_add s seen)) [0..<length ss]"
      by simp
    moreover have "filter_seen m seen (s # ss) = s # filter_seen m (set_add s seen) ss"
      using False by auto
    ultimately show ?thesis
      unfolding upt using False tail head Cons.IH [of "set_add s seen"] by simp
  qed
qed

lemma filter_eq_distinct: "distinct xs \<Longrightarrow> s \<in> set xs \<Longrightarrow> filter (\<lambda>x. x = s) xs = [s]"
proof (induction xs)
  case Nil
  then show ?case by simp
next
  case (Cons x xs)
  show ?case
  proof (cases "x = s")
    case True
    then have "s \<notin> set xs" using Cons.prems(1) by simp
    then have "filter (\<lambda>x. x = s) xs = []" by (auto simp: filter_empty_conv)
    then show ?thesis using True by simp
  next
    case False
    then show ?thesis using Cons by auto
  qed
qed

lemma sha_commitMeta: "sha (commitMeta g repo m s) = s"
  by (simp add: commitMeta_def)

lemma branches_commitMeta: "branches (commitMeta g repo m s) = sort (recorded m s)"
  by (simp add: commitMeta_def recorded_def)

lemma branches_attribution:
  "sort (recorded (attribution g lim) s)
     = sorted_list_of_set {rb \<in> set (remoteBranches g). s \<in> set (retained g lim rb)}"
proof -
  have "sorted_list_of_set (set (recorded (attribution g lim) s))
      = sort (remdups (recorded (attribution g lim) s))"
    by (rule sorted_list_of_set_sort_remdups)
  then show ?thesis
    by (simp add: attribution_recorded attribution_distinct distinct_remdups_id)
qed

lemma commitShas_member:
  "s \<in> set (commitShas g lim) \<longleftrightarrow>
     s \<in> set (allShasOrdered g) \<and> (\<exists>rb\<in>set (remoteBranches g). s \<in> set (retained g lim rb))"
  by (simp add: commitShas_def filter_seen_set attribution_has)

lemma retained_uncapped:
  "lim = 0 \<or> int (length (branchLog g rb)) \<le> lim \<Longrightarrow> retained g lim rb = branchLog g rb"
  by (auto simp: retained_def js_array_slice_def Let_def)

text \<open>
  Claim C2, as amended. When a commit id is among the ids kept for two tracked branches
  \<open>A\<close> and \<open>B\<close>, that is, among the last \<^verbatim>\<open>PER_BRANCH_LIMIT\<close> ids of the scan of each (the
  whole scan when the limit is 0 or the scan has no more ids than the limit), and is in the
  listing \<^verbatim>\<open>git log --all\<close> of the same window, which covers every remote branch, then the
  collected commits contain that id exactly once, and the \<^verbatim>\<open>branches\<close> of that commit are
  the sorted list, without duplicates, of the tracked branches that kept the id: \<open>A\<close> and
  \<open>B\<close> are in it, and it is the sorted list of \<open>{A, B}\<close> when no other branch kept the id.
\<close>

theorem commit_collected_once:
  assumes "s \<in> set (allShasOrdered g)"
    and "A \<in> set (remoteBranches g)" "s \<in> set (retained g lim A)"
    and "B \<in> set (remoteBranches g)" "s \<in> set (retained g lim B)"
  shows "length (filter (\<lambda>m. sha m = s) (commitMetas g lim repo)) = 1
    \<and> (\<forall>m\<in>set (commitMetas g lim repo). sha m = s \<longrightarrow>
         branches m = sorted_list_of_set {rb \<in> set (remoteBranches g). s \<in> set (retained g lim rb)}
         \<and> A \<in> set (branches m) \<and> B \<in> set (branches m)
         \<and> ({rb \<in> set (remoteBranches g). s \<in> set (retained g lim rb)} = {A, B}
              \<longrightarrow> branches m = sorted_list_of_set {A, B}))
    \<and> (\<forall>rb. lim = 0 \<or> int (length (branchLog g rb)) \<le> lim
              \<longrightarrow> retained g lim rb = branchLog g rb)"
proof (intro conjI ballI impI allI)
  have mem: "s \<in> set (commitShas g lim)"
    using assms(1,2,3) by (auto simp: commitShas_member)
  have "distinct (commitShas g lim)"
    by (simp add: commitShas_def filter_seen_distinct)
  then have "filter (\<lambda>x. x = s) (commitShas g lim) = [s]"
    using mem by (rule filter_eq_distinct)
  then show "length (filter (\<lambda>m. sha m = s) (commitMetas g lim repo)) = 1"
    by (simp add: commitMetas_def filter_map comp_def sha_commitMeta)
next
  fix rb
  assume "lim = 0 \<or> int (length (branchLog g rb)) \<le> lim"
  then show "retained g lim rb = branchLog g rb" by (rule retained_uncapped)
next
  fix m
  assume m: "m \<in> set (commitMetas g lim repo)" and s: "sha m = s"
  let ?S = "{rb \<in> set (remoteBranches g). s \<in> set (retained g lim rb)}"
  from m obtain x where "m = commitMeta g repo (attribution g lim) x"
    by (auto simp: commitMetas_def)
  with s have "m = commitMeta g repo (attribution g lim) s"
    by (simp add: sha_commitMeta)
  then show eq: "branches m = sorted_list_of_set ?S"
    by (simp add: branches_commitMeta branches_attribution)
  have fin: "finite ?S" by simp
  show "A \<in> set (branches m)" "B \<in> set (branches m)"
    unfolding eq using assms(2-5) fin by simp_all
  assume "?S = {A, B}"
  with eq show "branches m = sorted_list_of_set {A, B}" by simp
qed

text \<open>In the example history the commit \<^verbatim>\<open>2\<close> is on both branches: it is collected once,
  with the branches \<^verbatim>\<open>a\<close>, \<^verbatim>\<open>b\<close> in this order although \<^verbatim>\<open>b\<close> was scanned first.\<close>

lemma commitMetas_example:
  "commitMetas example_git 200 [] =
     [\<lparr>sha = [49], title = [116], author = [117],
       url = serverUrl @ commit_path @ [49], branches = [[98]]\<rparr>,
      \<lparr>sha = [50], title = [116], author = [117],
       url = serverUrl @ commit_path @ [50], branches = [[97], [98]]\<rparr>,
      \<lparr>sha = [51], title = [116], author = [117],
       url = serverUrl @ commit_path @ [51], branches = [[97]]\<rparr>]"
  by (simp add: commitMetas_def commitMeta_def commitShas_def attribution_def example_git_def
      retained_def js_array_slice_def map_has_def set_add_def)

theorem commit_collected_once_witness:
  "length (filter (\<lambda>m. sha m = [50]) (commitMetas example_git 200 [])) = 1
   \<and> map branches (filter (\<lambda>m. sha m = [50]) (commitMetas example_git 200 [])) = [[[97], [98]]]"
proof -
  have h: "[50] \<in> set (allShasOrdered example_git)"
    "[97] \<in> set (remoteBranches example_git)" "[50] \<in> set (retained example_git 200 [97])"
    "[98] \<in> set (remoteBranches example_git)" "[50] \<in> set (retained example_git 200 [98])"
    by (simp_all add: example_git_def retained_def js_array_slice_def)
  have "map branches (filter (\<lambda>m. sha m = [50]) (commitMetas example_git 200 [])) = [[[97], [98]]]"
    by (simp add: commitMetas_example)
  with commit_collected_once [OF h, of "[]", THEN conjunct1] show ?thesis
    by (intro conjI)
qed

text \<open>
  Claim C2 as stated fails when the cap bites. With \<^verbatim>\<open>PER_BRANCH_LIMIT=1\<close> the commit
  \<^verbatim>\<open>1\<close> is in the scans of both branches and is not collected at all, and the commit
  \<^verbatim>\<open>2\<close>, in the scans of both branches too, is collected with the branch \<^verbatim>\<open>a\<close> only.
\<close>

theorem capped_scan_counterexample:
  "[49] \<in> set (branchLog capped_git [97]) \<and> [49] \<in> set (branchLog capped_git [98])
   \<and> [49] \<in> set (allShasOrdered capped_git)
   \<and> length (filter (\<lambda>m. sha m = [49]) (commitMetas capped_git 1 [])) = 0
   \<and> [50] \<in> set (branchLog capped_git [97]) \<and> [50] \<in> set (branchLog capped_git [98])
   \<and> [50] \<in> set (allShasOrdered capped_git)
   \<and> map branches (filter (\<lambda>m. sha m = [50]) (commitMetas capped_git 1 [])) = [[[97]]]"
  by (simp add: commitMetas_def commitMeta_def commitShas_def attribution_def capped_git_def
      retained_def js_array_slice_def map_has_def set_add_def)

text \<open>
  Claim C3. The collected sequence is the walk of the global oldest-first listing that keeps
  an id the first time it is seen and only if it is in the attribution map, that is, only if
  a tracked branch has it. Its order is the order of the global listing: it is a
  subsequence of that listing, without duplicates, whatever the order of the branch scans.
\<close>

theorem collected_sequence:
  "commitShas g lim = first_tracked (allShasOrdered g) (\<lambda>s. map_has s (attribution g lim))
   \<and> (\<forall>s. map_has s (attribution g lim)
          = (\<exists>rb\<in>set (remoteBranches g). s \<in> set (retained g lim rb)))
   \<and> subseq (commitShas g lim) (allShasOrdered g)
   \<and> distinct (commitShas g lim)"
proof (intro conjI allI)
  show "commitShas g lim = first_tracked (allShasOrdered g) (\<lambda>s. map_has s (attribution g lim))"
    by (simp add: commitShas_def first_tracked_def filter_seen_index [of _ "[]", simplified])
  show "map_has s (attribution g lim)
      = (\<exists>rb\<in>set (remoteBranches g). s \<in> set (retained g lim rb))" for s
    by (rule attribution_has)
  show "subseq (commitShas g lim) (allShasOrdered g)"
    unfolding commitShas_def by (rule filter_seen_subseq)
  show "distinct (commitShas g lim)"
    unfolding commitShas_def by (rule filter_seen_distinct)
qed

text \<open>In the example, branch \<^verbatim>\<open>b\<close> is scanned first and gives \<^verbatim>\<open>1\<close>, \<^verbatim>\<open>2\<close>, then branch
  \<^verbatim>\<open>a\<close> gives \<^verbatim>\<open>2\<close>, \<^verbatim>\<open>3\<close>; the collected sequence follows the global listing and leaves
  out \<^verbatim>\<open>4\<close>, which no tracked branch has.\<close>

theorem collected_sequence_witness:
  "commitShas example_git 200 = [[49], [50], [51]]
   \<and> first_tracked (allShasOrdered example_git) (\<lambda>s. map_has s (attribution example_git 200))
       = [[49], [50], [51]]
   \<and> retained example_git 200 [98] = [[49], [50]]
   \<and> retained example_git 200 [97] = [[50], [51]]"
proof -
  have c: "commitShas example_git 200 = [[49], [50], [51]]"
    by (simp add: commitShas_def attribution_def example_git_def
      retained_def js_array_slice_def map_has_def set_add_def)
  have r: "retained example_git 200 [98] = [[49], [50]]" "retained example_git 200 [97] = [[50], [51]]"
    by (simp_all add: example_git_def retained_def js_array_slice_def)
  from collected_sequence [of example_git 200, THEN conjunct1] c
  have "first_tracked (allShasOrdered example_git) (\<lambda>s. map_has s (attribution example_git 200))
       = [[49], [50], [51]]"
    by (rule subst)
  with c r show ?thesis by (intro conjI)
qed

section \<open>The week of the window\<close>







lemma fixed_offset_keeps_day_bounds:
  "day_bounds_kept \<lparr>offset_at = (\<lambda>t. off), offset_of_local = (\<lambda>t. off)\<rparr>"
  by (simp add: day_bounds_kept_def LocalTime_def UTC_def)





section \<open>The summarizer\<close>

lemma chunkBySize_total: "0 < limit \<Longrightarrow> \<exists>out. chunkBySize parts limit = Some out"
proof -
  assume "0 < limit"
  then obtain r where "chunk_loop limit parts [] [] = Some r"
    using chunk_loop_total by blast
  then show ?thesis by (cases r) (simp add: chunkBySize_def)
qed

lemma empty_summary_nonempty: "empty_summary i \<noteq> []"
  by (simp add: empty_summary_def fragment_open_def)

lemma failed_summary_nonempty: "failed_summary i e \<noteq> []"
  by (simp add: failed_summary_def fragment_open_def)

lemma leaf_of_nonempty: "leaf_of r i \<noteq> []"
  by (cases r) (simp_all add: leaf_of_def empty_summary_nonempty failed_summary_nonempty)

lemma summarize_chunks_step:
  "summarize_chunks w m len i (c # cs) calls parts =
     summarize_chunks w m len (i + 1) cs (calls @ [ChunkPrompt m (i + 1) len c])
       (parts @ [leaf_of (svc w (length calls) (ChunkPrompt m (i + 1) len c)) (i + 1)])"
  by (cases "svc w (length calls) (ChunkPrompt m (i + 1) len c)")
     (simp_all add: chat_def leaf_of_def)

lemma summarize_chunks_shape:
  "summarize_chunks w m len i cs calls parts =
     (parts @ map (\<lambda>k. leaf_of (svc w (length calls + k) (ChunkPrompt m (i + k + 1) len (cs ! k)))
                        (i + k + 1)) [0..<length cs],
      calls @ map (\<lambda>k. ChunkPrompt m (i + k + 1) len (cs ! k)) [0..<length cs])"
proof (induction cs arbitrary: i calls parts)
  case Nil
  then show ?case by simp
next
  case (Cons c cs)
  have upt: "[0..<length (c # cs)] = 0 # map Suc [0..<length cs]"
    by (simp add: upt_conv_Cons map_Suc_upt del: upt_Suc)
  show ?case
    unfolding summarize_chunks_step Cons.IH upt
    by (simp add: comp_def)
qed


lemma process_commit_empty:
  "trim (getDiff g (sha m)) = [] \<Longrightarrow>
   process_commit cfg g w m calls = Some (\<lparr>meta = m, summary = no_content\<rparr>, calls)"
  by (simp add: process_commit_def)

lemma process_commit_chunks:
  assumes "trim (getDiff g (sha m)) \<noteq> []"
    and "chunkBySize (splitPatchByFile (getDiff g (sha m))) (DIFF_CHUNK_MAX_CHARS cfg) = Some chunks"
  shows "process_commit cfg g w m calls =
     (let leaves = fst (summarize_chunks w m (length chunks) 0 chunks calls []);
          calls1 = snd (summarize_chunks w m (length chunks) 0 chunks calls [])
      in Some (\<lparr>meta = m,
                summary = (case svc w (length calls1) (MergePrompt m leaves) of
                             Inr merged \<Rightarrow> merged
                           | Inl e \<Rightarrow> js_join nn leaves)\<rparr>,
               calls1 @ [MergePrompt m leaves]))"
proof -
  have ne: "getDiff g (sha m) \<noteq> []"
    using assms(1) by (auto simp: trim_def)
  show ?thesis
    using assms ne
    by (simp add: process_commit_def Let_def chat_def split: prod.splits sum.splits)
qed

lemma process_commit_total:
  assumes "0 < DIFF_CHUNK_MAX_CHARS cfg"
  shows "\<exists>it calls'. process_commit cfg g w m calls = Some (it, calls') \<and> meta it = m"
proof (cases "trim (getDiff g (sha m)) = []")
  case True
  then show ?thesis by (simp add: process_commit_empty)
next
  case False
  obtain chunks where
    "chunkBySize (splitPatchByFile (getDiff g (sha m))) (DIFF_CHUNK_MAX_CHARS cfg) = Some chunks"
    using chunkBySize_total [OF assms] by blast
  with False show ?thesis
    by (simp add: process_commit_chunks Let_def)
qed

lemma summarize_commits_total:
  assumes "0 < DIFF_CHUNK_MAX_CHARS cfg"
  shows "\<exists>items' calls'. summarize_commits cfg g w ms items calls = Some (items', calls')
     \<and> map meta items' = map meta items @ ms"
proof (induction ms arbitrary: items calls)
  case Nil
  then show ?case by simp
next
  case (Cons m ms)
  obtain it calls1 where pc: "process_commit cfg g w m calls = Some (it, calls1)" "meta it = m"
    using process_commit_total [OF assms] by blast
  obtain items' calls' where
    "summarize_commits cfg g w ms (items @ [it]) calls1 = Some (items', calls')"
    "map meta items' = map meta (items @ [it]) @ ms"
    using Cons.IH by blast
  with pc show ?case by simp
qed

lemma weekly_fallback_nonempty: "weekly_fallback items \<noteq> []"
  by (simp add: weekly_fallback_def weekly_failed_label_def)


lemma weekly_report_eq:
  assumes "summarize_commits cfg g w metas [] [] = Some (items, calls)"
  shows "weekly_report cfg g w metas =
     Some (case svc w (length calls)
                  (WeeklyPrompt (weekLabel cfg) items (if REPO cfg \<noteq> [] then REPO cfg else repository)) of
             Inr weekly \<Rightarrow> weekly
           | Inl e \<Rightarrow> weekly_fallback items,
           items,
           calls @ [WeeklyPrompt (weekLabel cfg) items (if REPO cfg \<noteq> [] then REPO cfg else repository)])"
  using assms by (simp add: weekly_report_def chat_def split: sum.splits)

text \<open>When every request fails, every summary of a commit is fallback text.\<close>

lemma process_commit_all_failed:
  assumes "\<forall>n p. \<exists>e. svc w n p = Inl e"
    and "process_commit cfg g w m calls = Some (it, calls')"
  shows "summary it = no_content
     \<or> (\<exists>leaves. summary it = js_join nn leaves \<and> (\<forall>l\<in>set leaves. \<exists>i e. l = failed_summary i e))"
proof (cases "trim (getDiff g (sha m)) = []")
  case True
  then show ?thesis using assms(2) by (auto simp: process_commit_empty)
next
  case False
  then have ne: "getDiff g (sha m) \<noteq> []" by (auto simp: trim_def)
  obtain chunks where ch:
    "chunkBySize (splitPatchByFile (getDiff g (sha m))) (DIFF_CHUNK_MAX_CHARS cfg) = Some chunks"
    using assms(2) False ne by (auto simp: process_commit_def Let_def split: option.splits)
  let ?leaves = "fst (summarize_chunks w m (length chunks) 0 chunks calls [])"
  let ?calls1 = "snd (summarize_chunks w m (length chunks) 0 chunks calls [])"
  obtain e where "svc w (length ?calls1) (MergePrompt m ?leaves) = Inl e"
    using assms(1) by blast
  then have "summary it = js_join nn ?leaves"
    using assms(2) by (auto simp: process_commit_chunks [OF False ch] Let_def)
  moreover have "\<forall>l\<in>set ?leaves. \<exists>i e. l = failed_summary i e"
  proof
    fix l assume "l \<in> set ?leaves"
    then obtain k where "l = leaf_of (svc w (length calls + k)
        (ChunkPrompt m (0 + k + 1) (length chunks) (chunks ! k))) (0 + k + 1)"
      by (auto simp: summarize_chunks_shape)
    moreover obtain e' where "svc w (length calls + k)
        (ChunkPrompt m (0 + k + 1) (length chunks) (chunks ! k)) = Inl e'"
      using assms(1) by blast
    ultimately show "\<exists>i e. l = failed_summary i e"
      by (auto simp: leaf_of_def)
  qed
  ultimately show ?thesis by blast
qed

lemma summarize_commits_all_failed:
  assumes "\<forall>n p. \<exists>e. svc w n p = Inl e"
  shows "summarize_commits cfg g w ms items calls = Some (items', calls') \<Longrightarrow>
    \<forall>it\<in>set items'. it \<in> set items \<or> summary it = no_content
     \<or> (\<exists>leaves. summary it = js_join nn leaves \<and> (\<forall>l\<in>set leaves. \<exists>i e. l = failed_summary i e))"
proof (induction ms arbitrary: items calls)
  case Nil
  then show ?case by simp
next
  case (Cons m ms)
  from Cons.prems obtain it calls1 where pc: "process_commit cfg g w m calls = Some (it, calls1)"
    and rest: "summarize_commits cfg g w ms (items @ [it]) calls1 = Some (items', calls')"
    by (auto split: option.splits)
  from process_commit_all_failed [OF assms pc] Cons.IH [OF rest]
  show ?case by auto
qed

lemma commitShas_example: "commitShas example_git 200 = [[49], [50], [51]]"
  by (simp add: commitShas_def attribution_def example_git_def
      retained_def js_array_slice_def map_has_def set_add_def)

lemma branchToCommits_getDiff:
  "branchToCommits (g\<lparr>getDiff := f\<rparr>) lim rbs m = branchToCommits g lim rbs m"
  by (induction rbs arbitrary: m) (simp_all add: retained_def)

lemma commitShas_getDiff: "commitShas (g\<lparr>getDiff := f\<rparr>) lim = commitShas g lim"
  by (simp add: commitShas_def attribution_def branchToCommits_getDiff)

lemma commitMetas_getDiff: "commitMetas (g\<lparr>getDiff := f\<rparr>) lim r = commitMetas g lim r"
  by (simp add: commitMetas_def commitShas_getDiff commitMeta_def attribution_def
      branchToCommits_getDiff)

lemma dispatch_error_surfaces:
  "LARK_WEBHOOK_URL cfg \<noteq> [] \<Longrightarrow> url_has_scheme (LARK_WEBHOOK_URL cfg) \<Longrightarrow>
   lark w (LARK_WEBHOOK_URL cfg) text = NetworkError e \<Longrightarrow>
   postToLark cfg w text = Failed (RequestError e) \<and> exit_code (postToLark cfg w text) = 1"
  by (simp add: postToLark_def)

lemma dispatch_invalid_url:
  "LARK_WEBHOOK_URL cfg \<noteq> [] \<Longrightarrow> \<not> url_has_scheme (LARK_WEBHOOK_URL cfg) \<Longrightarrow>
   postToLark cfg w text = Failed InvalidURL \<and> exit_code (postToLark cfg w text) = 1"
  by (simp add: postToLark_def)

lemma url_without_scheme: "\<not> url_has_scheme [104]"
  by (simp add: url_has_scheme_def is_ascii_alpha_def)

lemma hook_url_has_scheme: "url_has_scheme hook_url"
  by (simp add: url_has_scheme_def hook_url_def is_ascii_alpha_def is_scheme_char_def)

lemma postToLark_hook:
  "lark w hook_url text = Response status \<Longrightarrow> postToLark example_config w text = Sent text"
  by (simp add: postToLark_def example_config_def hook_url_has_scheme) (simp add: hook_url_def)

lemma run_example_git:
  "run example_config example_git w =
     Some (postToLark example_config w
       (case svc w 0 (WeeklyPrompt week_label
            (map (\<lambda>m. \<lparr>meta = m, summary = no_content\<rparr>) (commitMetas example_git 200 []))
            repository) of
          Inr weekly \<Rightarrow> weekly
        | Inl e \<Rightarrow> weekly_fallback
            (map (\<lambda>m. \<lparr>meta = m, summary = no_content\<rparr>) (commitMetas example_git 200 []))))"
proof -
  have d: "getDiff example_git s = []" for s by (simp add: example_git_def)
  have pc: "process_commit example_config example_git w m calls
      = Some (\<lparr>meta = m, summary = no_content\<rparr>, calls)" for m calls
    by (rule process_commit_empty) (simp add: d trim_def)
  have sc: "summarize_commits example_config example_git w ms items calls
      = Some (items @ map (\<lambda>m. \<lparr>meta = m, summary = no_content\<rparr>) ms, calls)" for ms items calls
    by (induction ms arbitrary: items) (simp_all add: pc)
  have "weekly_report example_config example_git w (commitMetas example_git 200 []) =
     Some (case svc w 0 (WeeklyPrompt week_label
            (map (\<lambda>m. \<lparr>meta = m, summary = no_content\<rparr>) (commitMetas example_git 200 []))
            repository) of
          Inr weekly \<Rightarrow> weekly
        | Inl e \<Rightarrow> weekly_fallback
            (map (\<lambda>m. \<lparr>meta = m, summary = no_content\<rparr>) (commitMetas example_git 200 [])),
        map (\<lambda>m. \<lparr>meta = m, summary = no_content\<rparr>) (commitMetas example_git 200 []),
        [WeeklyPrompt week_label
            (map (\<lambda>m. \<lparr>meta = m, summary = no_content\<rparr>) (commitMetas example_git 200 []))
            repository])"
    using weekly_report_eq [OF sc [of "commitMetas example_git 200 []" "[]" "[]", simplified]]
    by (simp add: example_config_def)
  then show ?thesis
    by (simp add: run_def commitShas_example example_config_def)
qed

lemma show_nat_digit: "n < 10 \<Longrightarrow> show_nat n = [48 + n]"
  by (subst show_nat.simps) simp

lemma trim_one_file_patch: "trim one_file_patch \<noteq> []"
  by (simp add: trim_def one_file_patch_def is_white_space_def is_line_terminator_def)

lemma process_commit_patch_failing:
  assumes "sha m = [50]"
  shows "process_commit example_config patch_git failing_world m calls =
    Some (\<lparr>meta = m, summary = failed_summary 1 http_500\<rparr>,
      calls @ [ChunkPrompt m 1 1 [43, 97, 98, 99, 100, 101, 102],
               MergePrompt m [failed_summary 1 http_500]])"
proof -
  have d: "getDiff patch_git (sha m) = one_file_patch"
    by (simp add: patch_git_def assms)
  have c: "chunkBySize (splitPatchByFile (getDiff patch_git (sha m))) (DIFF_CHUNK_MAX_CHARS example_config)
      = Some [[43, 97, 98, 99, 100, 101, 102]]"
    by (simp add: d splitPatchByFile_one_file_patch chunkBySize_def example_config_def)
  have t: "trim (getDiff patch_git (sha m)) \<noteq> []"
    by (simp add: d trim_one_file_patch)
  show ?thesis
    unfolding process_commit_chunks [OF t c]
    by (simp add: summarize_chunks_shape leaf_of_def failing_world_def Let_def)
qed

lemma process_commit_patch_empty:
  assumes "sha m \<noteq> [50]"
  shows "process_commit example_config patch_git w m calls
    = Some (\<lparr>meta = m, summary = no_content\<rparr>, calls)"
  by (rule process_commit_empty) (simp add: patch_git_def assms trim_def)

lemma run_patch_git_failing:
  "run example_config patch_git failing_world =
     Some (Sent (weekly_fallback
       [\<lparr>meta = \<lparr>sha = [49], title = [116], author = [117],
                 url = serverUrl @ commit_path @ [49], branches = [[98]]\<rparr>,
         summary = no_content\<rparr>,
        \<lparr>meta = \<lparr>sha = [50], title = [116], author = [117],
                 url = serverUrl @ commit_path @ [50], branches = [[97], [98]]\<rparr>,
         summary = failed_summary 1 http_500\<rparr>,
        \<lparr>meta = \<lparr>sha = [51], title = [116], author = [117],
                 url = serverUrl @ commit_path @ [51], branches = [[97]]\<rparr>,
         summary = no_content\<rparr>]))"
proof -
  have m: "commitMetas patch_git 200 [] = commitMetas example_git 200 []"
    unfolding patch_git_def by (rule commitMetas_getDiff)
  have s: "commitShas patch_git 200 = [[49], [50], [51]]"
    unfolding patch_git_def commitShas_getDiff by (rule commitShas_example)
  have cfg: "PER_BRANCH_LIMIT example_config = 200" "REPO example_config = []"
    "LARK_WEBHOOK_URL example_config = hook_url"
    by (simp_all add: example_config_def)
  let ?m1 = "\<lparr>sha = [49], title = [116], author = [117],
      url = serverUrl @ commit_path @ [49], branches = [[98]]\<rparr>"
  let ?m2 = "\<lparr>sha = [50], title = [116], author = [117],
      url = serverUrl @ commit_path @ [50], branches = [[97], [98]]\<rparr>"
  let ?m3 = "\<lparr>sha = [51], title = [116], author = [117],
      url = serverUrl @ commit_path @ [51], branches = [[97]]\<rparr>"
  let ?items = "[\<lparr>meta = ?m1, summary = no_content\<rparr>,
      \<lparr>meta = ?m2, summary = failed_summary 1 http_500\<rparr>, \<lparr>meta = ?m3, summary = no_content\<rparr>]"
  have sc: "summarize_commits example_config patch_git failing_world [?m1, ?m2, ?m3] [] [] =
      Some (?items, [ChunkPrompt ?m2 1 1 [43, 97, 98, 99, 100, 101, 102],
                     MergePrompt ?m2 [failed_summary 1 http_500]])"
    by (simp add: process_commit_patch_failing process_commit_patch_empty)
  have "weekly_report example_config patch_git failing_world [?m1, ?m2, ?m3]
      = Some (weekly_fallback ?items, ?items,
          [ChunkPrompt ?m2 1 1 [43, 97, 98, 99, 100, 101, 102],
           MergePrompt ?m2 [failed_summary 1 http_500],
           WeeklyPrompt (weekLabel example_config) ?items repository])"
    unfolding weekly_report_eq [OF sc] by (simp add: failing_world_def cfg)
  moreover have "postToLark example_config failing_world t = Sent t" for t
    by (rule postToLark_hook [where status = 200]) (simp add: failing_world_def)
  ultimately show ?thesis
    unfolding run_def cfg m s commitMetas_example by simp
qed


section \<open>A commit without content\<close>



section \<open>Leaf summaries\<close>

text \<open>
  Claim C10. For every chunk, at position \<open>k\<close> from 0, if the call succeeds with the empty
  text then the leaf summary recorded is the placeholder of position \<open>k + 1\<close>, which is not
  empty and contains the decimal digits of the position. There is one leaf summary for
  each chunk, every one of them is a non-empty string, and they are what the commit-level
  merge request carries.
\<close>

theorem leaf_summaries_nonempty:
  "(\<forall>k<length chunks.
       svc w (length calls + k) (ChunkPrompt m (k + 1) (length chunks) (chunks ! k)) = Inr [] \<longrightarrow>
       fst (summarize_chunks w m (length chunks) 0 chunks calls []) ! k = empty_summary (k + 1))
   \<and> empty_summary i \<noteq> [] \<and> sublist (show_nat i) (empty_summary i)
   \<and> length (fst (summarize_chunks w m (length chunks) 0 chunks calls [])) = length chunks
   \<and> (\<forall>s\<in>set (fst (summarize_chunks w m (length chunks) 0 chunks calls [])). s \<noteq> [])
   \<and> (trim (getDiff g (sha m)) \<noteq> []
        \<and> chunkBySize (splitPatchByFile (getDiff g (sha m))) (DIFF_CHUNK_MAX_CHARS cfg) = Some chunks
      \<longrightarrow> (\<exists>it. process_commit cfg g w m calls =
             Some (it, snd (summarize_chunks w m (length chunks) 0 chunks calls [])
                       @ [MergePrompt m (fst (summarize_chunks w m (length chunks) 0 chunks calls []))])))"
proof (intro conjI allI impI ballI)
  fix k
  assume "k < length chunks"
    and "svc w (length calls + k) (ChunkPrompt m (k + 1) (length chunks) (chunks ! k)) = Inr []"
  then show "fst (summarize_chunks w m (length chunks) 0 chunks calls []) ! k = empty_summary (k + 1)"
    by (simp add: summarize_chunks_shape leaf_of_def)
next
  show "empty_summary i \<noteq> []" by (rule empty_summary_nonempty)
  show "sublist (show_nat i) (empty_summary i)"
    unfolding empty_summary_def by (rule sublist_appendI)
  show "length (fst (summarize_chunks w m (length chunks) 0 chunks calls [])) = length chunks"
    by (simp add: summarize_chunks_shape)
next
  fix s
  assume "s \<in> set (fst (summarize_chunks w m (length chunks) 0 chunks calls []))"
  then show "s \<noteq> []"
    by (auto simp: summarize_chunks_shape leaf_of_nonempty)
next
  assume "trim (getDiff g (sha m)) \<noteq> []
    \<and> chunkBySize (splitPatchByFile (getDiff g (sha m))) (DIFF_CHUNK_MAX_CHARS cfg) = Some chunks"
  then show "\<exists>it. process_commit cfg g w m calls =
      Some (it, snd (summarize_chunks w m (length chunks) 0 chunks calls [])
                @ [MergePrompt m (fst (summarize_chunks w m (length chunks) 0 chunks calls []))])"
    by (simp add: process_commit_chunks Let_def)
qed

text \<open>Two chunks and a service that answers the empty text: the second leaf summary is the
  placeholder with the digit 2.\<close>

theorem leaf_summaries_nonempty_witness:
  "fst (summarize_chunks silent_world example_meta (length [[43, 97], [98 :: nat]]) 0
          [[43, 97], [98]] [] []) ! 1
     = empty_summary (1 + 1)
   \<and> empty_summary (1 + 1) = [65288, 29255, 27573, 50, 25688, 35201, 20026, 31354, 65289]"
proof -
  let ?chunks = "[[43, 97], [98 :: nat]]"
  have k: "1 < length ?chunks" by simp
  have a: "svc silent_world (length ([] :: prompt list) + 1)
      (ChunkPrompt example_meta (1 + 1) (length ?chunks) (?chunks ! 1)) = Inr []"
    by (simp add: silent_world_def)
  have e: "empty_summary (1 + 1) = [65288, 29255, 27573, 50, 25688, 35201, 20026, 31354, 65289]"
    by (simp add: empty_summary_def fragment_open_def empty_close_def show_nat_digit)
  from leaf_summaries_nonempty [of ?chunks silent_world "[]" example_meta, THEN conjunct1,
      THEN spec, THEN mp, OF k, THEN mp, OF a] e
  show ?thesis by (intro conjI)
qed

section \<open>Fallbacks of the summarizer\<close>

text \<open>
  Claim C1, as amended. For every run that reaches the main flow with a positive chunk
  limit, whatever requests fail, the flow ends with a report text made from one item for
  each commit. A chunk call that fails is replaced by the fallback leaf summary of its
  position and the loop goes on; a commit merge that fails is replaced by the leaf summaries
  joined in order by the separator \<^verbatim>\<open>\n\n\<close>; a window merge that fails is replaced by the
  labelled concatenation of the per-commit summaries, which is not empty. In particular,
  when every request fails the report is that concatenation, not empty, and every summary
  in it is the placeholder of a commit without content or a join of fallback leaf summaries.
  (When the window merge succeeds the report is the text of the service.)
\<close>

theorem summarization_failures_fall_back:
  "(0 < DIFF_CHUNK_MAX_CHARS cfg \<longrightarrow>
      (\<exists>text items calls'. weekly_report cfg g w metas = Some (text, items, calls')
         \<and> map meta items = metas))
   \<and> (\<forall>e. svc w (length calls) (ChunkPrompt m (i + 1) len c) = Inl e \<longrightarrow>
         summarize_chunks w m len i (c # cs) calls parts
           = summarize_chunks w m len (i + 1) cs (calls @ [ChunkPrompt m (i + 1) len c])
               (parts @ [failed_summary (i + 1) e]))
   \<and> (\<forall>chunks e.
         trim (getDiff g (sha m)) \<noteq> []
         \<and> chunkBySize (splitPatchByFile (getDiff g (sha m))) (DIFF_CHUNK_MAX_CHARS cfg) = Some chunks
         \<and> svc w (length (snd (summarize_chunks w m (length chunks) 0 chunks calls [])))
              (MergePrompt m (fst (summarize_chunks w m (length chunks) 0 chunks calls []))) = Inl e
         \<longrightarrow> process_commit cfg g w m calls =
               Some (\<lparr>meta = m,
                      summary = js_join nn (fst (summarize_chunks w m (length chunks) 0 chunks calls []))\<rparr>,
                     snd (summarize_chunks w m (length chunks) 0 chunks calls [])
                       @ [MergePrompt m (fst (summarize_chunks w m (length chunks) 0 chunks calls []))]))
   \<and> (\<forall>items sent e.
         summarize_commits cfg g w metas [] [] = Some (items, sent)
         \<and> svc w (length sent)
              (WeeklyPrompt (weekLabel cfg) items (if REPO cfg \<noteq> [] then REPO cfg else repository)) = Inl e
         \<longrightarrow> weekly_report cfg g w metas =
               Some (weekly_fallback items, items,
                     sent @ [WeeklyPrompt (weekLabel cfg) items
                               (if REPO cfg \<noteq> [] then REPO cfg else repository)])
             \<and> weekly_fallback items \<noteq> [])
   \<and> ((\<forall>n p. \<exists>e. svc w n p = Inl e) \<and> 0 < DIFF_CHUNK_MAX_CHARS cfg \<longrightarrow>
        (\<exists>items sent. weekly_report cfg g w metas = Some (weekly_fallback items, items, sent)
           \<and> weekly_fallback items \<noteq> [] \<and> map meta items = metas
           \<and> (\<forall>it\<in>set items. summary it = no_content
                 \<or> (\<exists>leaves. summary it = js_join nn leaves
                       \<and> (\<forall>l\<in>set leaves. \<exists>i e. l = failed_summary i e)))))"
proof (intro conjI allI impI)
  assume pos: "0 < DIFF_CHUNK_MAX_CHARS cfg"
  obtain items sent where sc: "summarize_commits cfg g w metas [] [] = Some (items, sent)"
    and metas: "map meta items = metas"
    using summarize_commits_total [OF pos, of g w metas "[]" "[]"] by auto
  show "\<exists>text items calls'. weekly_report cfg g w metas = Some (text, items, calls')
      \<and> map meta items = metas"
    using weekly_report_eq [OF sc] metas by simp
next
  fix e
  assume "svc w (length calls) (ChunkPrompt m (i + 1) len c) = Inl e"
  then show "summarize_chunks w m len i (c # cs) calls parts
      = summarize_chunks w m len (i + 1) cs (calls @ [ChunkPrompt m (i + 1) len c])
          (parts @ [failed_summary (i + 1) e])"
    by (simp add: chat_def)
next
  fix chunks e
  assume "trim (getDiff g (sha m)) \<noteq> []
    \<and> chunkBySize (splitPatchByFile (getDiff g (sha m))) (DIFF_CHUNK_MAX_CHARS cfg) = Some chunks
    \<and> svc w (length (snd (summarize_chunks w m (length chunks) 0 chunks calls [])))
         (MergePrompt m (fst (summarize_chunks w m (length chunks) 0 chunks calls []))) = Inl e"
  then show "process_commit cfg g w m calls =
      Some (\<lparr>meta = m,
             summary = js_join nn (fst (summarize_chunks w m (length chunks) 0 chunks calls []))\<rparr>,
            snd (summarize_chunks w m (length chunks) 0 chunks calls [])
              @ [MergePrompt m (fst (summarize_chunks w m (length chunks) 0 chunks calls []))])"
    by (simp add: process_commit_chunks Let_def)
next
  fix items sent e
  assume a: "summarize_commits cfg g w metas [] [] = Some (items, sent)
    \<and> svc w (length sent)
         (WeeklyPrompt (weekLabel cfg) items (if REPO cfg \<noteq> [] then REPO cfg else repository)) = Inl e"
  then show "weekly_report cfg g w metas =
      Some (weekly_fallback items, items,
            sent @ [WeeklyPrompt (weekLabel cfg) items
                      (if REPO cfg \<noteq> [] then REPO cfg else repository)])"
    using weekly_report_eq [of cfg g w metas items sent] by simp
  show "weekly_fallback items \<noteq> []" by (rule weekly_fallback_nonempty)
next
  assume a: "(\<forall>n p. \<exists>e. svc w n p = Inl e) \<and> 0 < DIFF_CHUNK_MAX_CHARS cfg"
  then have fail: "\<forall>n p. \<exists>e. svc w n p = Inl e" and pos: "0 < DIFF_CHUNK_MAX_CHARS cfg"
    by simp_all
  obtain items sent where sc: "summarize_commits cfg g w metas [] [] = Some (items, sent)"
    and metas: "map meta items = metas"
    using summarize_commits_total [OF pos, of g w metas "[]" "[]"] by auto
  let ?p = "WeeklyPrompt (weekLabel cfg) items (if REPO cfg \<noteq> [] then REPO cfg else repository)"
  obtain e where "svc w (length sent) ?p = Inl e" using fail by blast
  then have "weekly_report cfg g w metas = Some (weekly_fallback items, items, sent @ [?p])"
    using weekly_report_eq [OF sc] by simp
  moreover have "\<forall>it\<in>set items. summary it = no_content
      \<or> (\<exists>leaves. summary it = js_join nn leaves \<and> (\<forall>l\<in>set leaves. \<exists>i e. l = failed_summary i e))"
    using summarize_commits_all_failed [OF fail sc] by simp
  ultimately show "\<exists>items sent. weekly_report cfg g w metas = Some (weekly_fallback items, items, sent)
      \<and> weekly_fallback items \<noteq> [] \<and> map meta items = metas
      \<and> (\<forall>it\<in>set items. summary it = no_content
            \<or> (\<exists>leaves. summary it = js_join nn leaves
                  \<and> (\<forall>l\<in>set leaves. \<exists>i e. l = failed_summary i e)))"
    using metas weekly_fallback_nonempty by auto
qed

text \<open>A run in which every request fails, on the history where commit \<^verbatim>\<open>2\<close> has a
  patch: its summary is the fallback leaf summary of its only chunk.\<close>

theorem summarization_failures_fall_back_witness:
  "run example_config patch_git failing_world =
     Some (Sent (weekly_fallback
       [\<lparr>meta = \<lparr>sha = [49], title = [116], author = [117],
                 url = serverUrl @ commit_path @ [49], branches = [[98]]\<rparr>,
         summary = no_content\<rparr>,
        \<lparr>meta = \<lparr>sha = [50], title = [116], author = [117],
                 url = serverUrl @ commit_path @ [50], branches = [[97], [98]]\<rparr>,
         summary = failed_summary 1 http_500\<rparr>,
        \<lparr>meta = \<lparr>sha = [51], title = [116], author = [117],
                 url = serverUrl @ commit_path @ [51], branches = [[97]]\<rparr>,
         summary = no_content\<rparr>]))
   \<and> (\<exists>items sent. weekly_report example_config patch_git failing_world (commitMetas patch_git 200 [])
       = Some (weekly_fallback items, items, sent)
     \<and> weekly_fallback items \<noteq> [] \<and> map meta items = commitMetas patch_git 200 []
     \<and> list_all (\<lambda>it. summary it = no_content
           \<or> (\<exists>leaves. summary it = js_join nn leaves
                 \<and> list_all (\<lambda>l. \<exists>i e. l = failed_summary i e) leaves)) items)"
proof -
  have h: "(\<forall>n p. \<exists>e. svc failing_world n p = Inl e) \<and> 0 < DIFF_CHUNK_MAX_CHARS example_config"
    by (simp add: failing_world_def example_config_def)
  from summarization_failures_fall_back [of example_config patch_git failing_world
      "commitMetas patch_git 200 []", THEN conjunct2, THEN conjunct2, THEN conjunct2,
      THEN conjunct2, THEN mp, OF h, unfolded Ball_set]
    run_patch_git_failing
  show ?thesis by (intro conjI)
qed

text \<open>
  Claim C1 as stated fails: not every run produces a non-empty report text. When the
  window merge succeeds with the empty text, which \<^verbatim>\<open>chat\<close> returns for a response
  without content, the empty text is the report and is sent; and a run without collected
  commits ends with no report at all.
\<close>

theorem report_nonempty_counterexample:
  "run example_config example_git silent_world = Some (Sent [])
   \<and> run example_config (example_git\<lparr>allShasOrdered := []\<rparr>) silent_world = Some NoCommits"
proof -
  have "run example_config example_git silent_world = Some (Sent [])"
    by (subst run_example_git)
       (simp add: postToLark_hook [where status = 200] silent_world_def)
  moreover have "run example_config (example_git\<lparr>allShasOrdered := []\<rparr>) silent_world = Some NoCommits"
    by (simp add: run_def commitShas_def)
  ultimately show ?thesis by (intro conjI)
qed

section \<open>Dispatch\<close>

text \<open>
  Claim C9 says that a failed delivery of the report fails the run. With a well-formed
  webhook URL, when the webhook answers the request with status 500 the delivery has
  failed, yet \<^verbatim>\<open>postToLark\<close> resolves at the end of the response, the run reports the
  text as sent and ends with exit code 0. Only a URL that \<^verbatim>\<open>new URL\<close> refuses and an
  error of the request itself reach the top-level \<^verbatim>\<open>catch\<close> (lemmas
  \<open>dispatch_invalid_url\<close> and \<open>dispatch_error_surfaces\<close>).
\<close>

theorem dispatch_failure_unnoticed:
  "delivery_failed (lark refused_world (LARK_WEBHOOK_URL example_config) [111, 107])
   \<and> LARK_WEBHOOK_URL example_config = hook_url \<and> url_has_scheme hook_url
   \<and> run example_config example_git refused_world = Some (Sent [111, 107])
   \<and> exit_code (Sent [111, 107]) = 0"
proof -
  have "run example_config example_git refused_world = Some (Sent [111, 107])"
    by (subst run_example_git)
       (simp add: postToLark_hook [where status = 500] refused_world_def)
  moreover have "delivery_failed (lark refused_world (LARK_WEBHOOK_URL example_config) [111, 107])"
    "LARK_WEBHOOK_URL example_config = hook_url"
    by (simp_all add: refused_world_def example_config_def delivery_failed_def)
  ultimately show ?thesis
    using hook_url_has_scheme by simp
qed


end
